theory Spec2Isabelle
  imports Complex_Main "HOL-Library.AList"
begin

section \<open>Retry policy: exponential backoff (utils/retry\_policies.py)\<close>




section \<open>Circuit breaker (utils/retry\_policies.py)\<close>

datatype CircuitState = CLOSED | OPEN | HALF_OPEN

record CircuitBreaker =
  failure_threshold :: int
  recovery_timeout :: real
  success_threshold :: int
  state :: CircuitState
  failure_count :: int
  success_count :: int
  last_failure_time :: "real option"

text \<open>
  What a guarded call can end with: the breaker's own rejection, or the exception of the
  guarded function, which \<open>call\<close> re-raises.
\<close>

datatype 'e call_error = CircuitBreakerError | Raised 'e

definition on_success :: "CircuitBreaker \<Rightarrow> CircuitBreaker" where
  "on_success cb =
     (if state cb = HALF_OPEN then
        (let cb1 = cb\<lparr>success_count := success_count cb + 1\<rparr>
         in if success_count cb1 \<ge> success_threshold cb1
            then cb1\<lparr>state := CLOSED, failure_count := 0, success_count := 0\<rparr>
            else cb1)
      else if state cb = CLOSED then cb\<lparr>failure_count := 0\<rparr>
      else cb)"

definition on_failure :: "real \<Rightarrow> CircuitBreaker \<Rightarrow> CircuitBreaker" where
  "on_failure t cb =
     (let cb1 = cb\<lparr>failure_count := failure_count cb + 1, last_failure_time := Some t\<rparr>
      in if state cb1 = HALF_OPEN then cb1\<lparr>state := OPEN, success_count := 0\<rparr>
         else if state cb1 = CLOSED then
           (if failure_count cb1 \<ge> failure_threshold cb1 then cb1\<lparr>state := OPEN\<rparr> else cb1)
         else cb1)"

text \<open>
  The guarded function is a transformer of an outside world \<open>'w\<close>, so that a call that does
  not run it leaves the world as it was. The clock \<open>time.time()\<close> is read from the world.
  \<open>if self.last_failure_time:\<close> is Python truthiness: \<open>None\<close> and \<open>0.0\<close> both skip the
  check.
\<close>

definition check_circuit :: "('w \<Rightarrow> real) \<Rightarrow> CircuitBreaker \<Rightarrow> 'w \<Rightarrow> 'e call_error + CircuitBreaker" where
  "check_circuit now cb w =
     (if state cb = OPEN then
        (case last_failure_time cb of
           None \<Rightarrow> Inr cb
         | Some t \<Rightarrow>
             if t \<noteq> 0 then
               (let elapsed = now w - t
                in if elapsed \<ge> recovery_timeout cb
                   then Inr (cb\<lparr>state := HALF_OPEN, success_count := 0\<rparr>)
                   else Inl CircuitBreakerError)
             else Inr cb)
      else Inr cb)"

definition call ::
  "('w \<Rightarrow> real) \<Rightarrow> CircuitBreaker \<Rightarrow> ('w \<Rightarrow> ('e + 'a) \<times> 'w) \<Rightarrow> 'w
     \<Rightarrow> ('e call_error + 'a) \<times> CircuitBreaker \<times> 'w" where
  "call now cb func w =
     (case check_circuit now cb w of
        Inl e \<Rightarrow> (Inl e, cb, w)
      | Inr cb1 \<Rightarrow>
          (case func w of
             (Inr result, w') \<Rightarrow> (Inr result, on_success cb1, w')
           | (Inl e, w') \<Rightarrow> (Inl (Raised e), on_failure (now w') cb1, w')))"

definition reset :: "CircuitBreaker \<Rightarrow> CircuitBreaker" where
  "reset cb = cb\<lparr>state := CLOSED, failure_count := 0, success_count := 0,
                 last_failure_time := None\<rparr>"

text \<open>A sequence of calls, one after the other, on the same breaker.\<close>

fun calls ::
  "('w \<Rightarrow> real) \<Rightarrow> CircuitBreaker \<Rightarrow> ('w \<Rightarrow> ('e + 'a) \<times> 'w) list \<Rightarrow> 'w
     \<Rightarrow> CircuitBreaker \<times> 'w" where
  "calls now cb [] w = (cb, w)"
| "calls now cb (f # fs) w =
     (case call now cb f w of (r, cb', w') \<Rightarrow> calls now cb' fs w')"

definition fails :: "('w \<Rightarrow> ('e + 'a) \<times> 'w) \<Rightarrow> bool" where
  "fails f = (\<forall>w. isl (fst (f w)))"

definition succeeds :: "('w \<Rightarrow> ('e + 'a) \<times> 'w) \<Rightarrow> bool" where
  "succeeds f = (\<forall>w. \<not> isl (fst (f w)))"

section \<open>Dependency graph (utils/dependency\_graph.py)\<close>

text \<open>
  The exceptions of the module: its own \<open>CyclicDependencyError\<close> with the reported path,
  the \<open>RuntimeError\<close> of the batching, and those Python raises on a missing key
  (\<open>KeyError\<close>) or a missing list element (\<open>ValueError\<close> of \<open>list.index\<close>).
\<close>

datatype graph_error =
  CyclicDependencyError "string list" | KeyError string | ValueError | RuntimeError string

text \<open>
  The two dictionaries are maps. The set \<open>nodes\<close> is the list of its elements in the
  order in which a loop over the set meets them; Python does not fix that order, and
  nothing below depends on it.
\<close>

record DependencyGraph =
  graph :: "string \<rightharpoonup> string list"
  reverse_graph :: "string \<rightharpoonup> string list"
  nodes :: "string list"

definition DependencyGraph_init :: DependencyGraph where
  "DependencyGraph_init = \<lparr>graph = Map.empty, reverse_graph = Map.empty, nodes = []\<rparr>"

definition add_node :: "string \<Rightarrow> DependencyGraph \<Rightarrow> DependencyGraph" where
  "add_node node g =
     (if node \<notin> set (nodes g)
      then g\<lparr>nodes := nodes g @ [node],
             graph := (graph g)(node \<mapsto> []),
             reverse_graph := (reverse_graph g)(node \<mapsto> [])\<rparr>
      else g)"

definition add_dependency :: "string \<Rightarrow> string \<Rightarrow> DependencyGraph \<Rightarrow> graph_error + DependencyGraph" where
  "add_dependency node depends_on g =
     (let g1 = add_node node g;
          g2 = add_node depends_on g1
      in case graph g2 depends_on of
           None \<Rightarrow> Inl (KeyError depends_on)
         | Some dependents \<Rightarrow>
             (let g3 = (if node \<notin> set dependents
                        then g2\<lparr>graph := (graph g2)(depends_on \<mapsto> dependents @ [node])\<rparr>
                        else g2)
              in case reverse_graph g3 node of
                   None \<Rightarrow> Inl (KeyError node)
                 | Some dependencies \<Rightarrow>
                     Inr (if depends_on \<notin> set dependencies
                          then g3\<lparr>reverse_graph :=
                                    (reverse_graph g3)(node \<mapsto> dependencies @ [depends_on])\<rparr>
                          else g3)))"

definition clear :: "DependencyGraph \<Rightarrow> DependencyGraph" where
  "clear g = g\<lparr>graph := Map.empty, reverse_graph := Map.empty, nodes := []\<rparr>"

text \<open>A graph is built by calls of the three mutators, from the empty graph.\<close>

datatype graph_op = AddNode string | AddDependency string string | Clear

fun apply_op :: "graph_op \<Rightarrow> DependencyGraph \<Rightarrow> graph_error + DependencyGraph" where
  "apply_op (AddNode node) g = Inr (add_node node g)"
| "apply_op (AddDependency node depends_on) g = add_dependency node depends_on g"
| "apply_op Clear g = Inr (clear g)"

fun apply_ops :: "graph_op list \<Rightarrow> DependencyGraph \<Rightarrow> graph_error + DependencyGraph" where
  "apply_ops [] g = Inr g"
| "apply_ops (x # xs) g =
     (case apply_op x g of Inl e \<Rightarrow> Inl e | Inr g' \<Rightarrow> apply_ops xs g')"

definition build :: "graph_op list \<Rightarrow> graph_error + DependencyGraph" where
  "build ops = apply_ops ops DependencyGraph_init"

subsection \<open>Topological order: Kahn's algorithm\<close>

text \<open>
  The dictionary \<open>in_degree\<close> is built by a comprehension over the nodes; it is an
  association list, one entry for each node.
\<close>

fun in_degree_init :: "DependencyGraph \<Rightarrow> string list \<Rightarrow> graph_error + (string \<times> int) list" where
  "in_degree_init g [] = Inr []"
| "in_degree_init g (node # rest) =
     (case reverse_graph g node of
        None \<Rightarrow> Inl (KeyError node)
      | Some dependencies \<Rightarrow>
          (case in_degree_init g rest of
             Inl e \<Rightarrow> Inl e
           | Inr d \<Rightarrow> Inr ((node, int (length dependencies)) # d)))"

text \<open>The inner loop over the dependents of the node just taken from the queue.\<close>

fun relax ::
  "string list \<Rightarrow> (string \<times> int) list \<Rightarrow> string list
     \<Rightarrow> graph_error + ((string \<times> int) list \<times> string list)" where
  "relax [] in_degree queue = Inr (in_degree, queue)"
| "relax (dependent_node # rest) in_degree queue =
     (case map_of in_degree dependent_node of
        None \<Rightarrow> Inl (KeyError dependent_node)
      | Some k \<Rightarrow>
          (let in_degree' = AList.update dependent_node (k - 1) in_degree
           in relax rest in_degree' (if k - 1 = 0 then queue @ [dependent_node] else queue)))"

definition positive_entries :: "(string \<times> int) list \<Rightarrow> nat" where
  "positive_entries in_degree = length (filter (\<lambda>(k, v). 0 < v) in_degree)"

text \<open>
  Every node the inner loop puts on the queue had the in-degree 1 and has the in-degree 0
  afterwards: the queue grows by no more than the positive entries shrink. That bounds the
  outer loop.
\<close>

lemma positive_entries_update:
  "map_of al k = Some v \<Longrightarrow>
     positive_entries (AList.update k v' al) + (if 0 < v then 1 else 0)
       = positive_entries al + (if 0 < v' then 1 else 0)"
proof (induction al)
  case Nil
  then show ?case by simp
next
  case (Cons a al)
  obtain k0 v0 where a: "a = (k0, v0)" by (cases a)
  show ?case
  proof (cases "k0 = k")
    case True
    then show ?thesis using Cons.prems a by (simp add: positive_entries_def)
  next
    case False
    then have "map_of al k = Some v" using Cons.prems a by simp
    from Cons.IH[OF this] show ?thesis using False a by (simp add: positive_entries_def)
  qed
qed

lemma relax_measure:
  "relax ds in_degree queue = Inr (in_degree', queue') \<Longrightarrow>
     length queue' + positive_entries in_degree' \<le> length queue + positive_entries in_degree"
proof (induction ds arbitrary: in_degree queue)
  case Nil
  then show ?case by simp
next
  case (Cons d ds)
  from Cons.prems obtain k where k: "map_of in_degree d = Some k"
    by (auto split: option.splits)
  let ?deg = "AList.update d (k - 1) in_degree"
  let ?q = "if k - 1 = 0 then queue @ [d] else queue"
  have "relax ds ?deg ?q = Inr (in_degree', queue')"
    using Cons.prems k by (simp add: Let_def)
  from Cons.IH[OF this]
  have "length queue' + positive_entries in_degree' \<le> length ?q + positive_entries ?deg" .
  moreover have "length ?q + positive_entries ?deg \<le> length queue + positive_entries in_degree"
  proof (cases "k - 1 = 0")
    case True
    then have "k = 1" by simp
    then show ?thesis using positive_entries_update[OF k, of 0] True by simp
  next
    case False
    then show ?thesis using positive_entries_update[OF k, of "k - 1"]
      by (simp split: if_splits)
  qed
  ultimately show ?case by linarith
qed

text \<open>
  The loop \<open>while queue\<close>: it returns the order and the in-degrees it ends with.
\<close>

function kahn_loop ::
  "DependencyGraph \<Rightarrow> string list \<Rightarrow> string list \<Rightarrow> (string \<times> int) list
     \<Rightarrow> graph_error + (string list \<times> (string \<times> int) list)" where
  "kahn_loop g [] ordered in_degree = Inr (ordered, in_degree)"
| "kahn_loop g (node # queue) ordered in_degree =
     (case graph g node of
        None \<Rightarrow> Inl (KeyError node)
      | Some dependents \<Rightarrow>
          (case relax dependents in_degree queue of
             Inl e \<Rightarrow> Inl e
           | Inr (in_degree', queue') \<Rightarrow> kahn_loop g queue' (ordered @ [node]) in_degree'))"
  by pat_completeness auto
termination
proof (relation "measure (\<lambda>(g, queue, ordered, in_degree).
    length queue + positive_entries in_degree)")
  show "wf (measure (\<lambda>(g, queue, ordered, in_degree).
    length queue + positive_entries in_degree))" by simp
next
  fix g :: DependencyGraph and node queue ordered in_degree x2 x2a x y
  assume "relax x2 in_degree queue = Inr x2a" "(x, y) = x2a"
  then have "relax x2 in_degree queue = Inr (x, y)" by simp
  from relax_measure[OF this]
  show "((g, y, ordered @ [node], x), g, node # queue, ordered, in_degree)
      \<in> measure (\<lambda>(g, queue, ordered, in_degree). length queue + positive_entries in_degree)"
    by simp
qed

subsection \<open>The reported cycle path\<close>

fun index_of :: "'a list \<Rightarrow> 'a \<Rightarrow> nat option" where
  "index_of [] x = None"
| "index_of (y # ys) x =
     (if y = x then Some 0 else (case index_of ys x of None \<Rightarrow> None | Some i \<Rightarrow> Some (Suc i)))"

text \<open>
  The loop \<open>while True\<close> of \<open>_find_cycle_path\<close>, with its local variables as arguments. At
  a dead end the method calls itself on the list without its first element: the loop
  starts again from the second element.
\<close>

function find_cycle_walk ::
  "DependencyGraph \<Rightarrow> string list \<Rightarrow> string list \<Rightarrow> string set \<Rightarrow> string
     \<Rightarrow> graph_error + string list" where
  "find_cycle_walk g nodes_in_cycle path visited current =
     (case reverse_graph g current of
        None \<Rightarrow> Inl (KeyError current)
      | Some deps \<Rightarrow>
          (case filter (\<lambda>dep. dep \<in> set nodes_in_cycle) deps of
             [] \<Rightarrow>
               (case nodes_in_cycle of
                  _ # start # rest \<Rightarrow>
                    find_cycle_walk g (start # rest) [start] {start} start
                | _ \<Rightarrow> Inr path)
           | next_node # _ \<Rightarrow>
               if next_node \<in> visited then
                 (case index_of path next_node of
                    None \<Rightarrow> Inl ValueError
                  | Some cycle_start \<Rightarrow> Inr (drop cycle_start path @ [next_node]))
               else if length (path @ [next_node]) > length nodes_in_cycle * 2
               then Inr (take 10 (path @ [next_node]))
               else find_cycle_walk g nodes_in_cycle (path @ [next_node])
                      (insert next_node visited) next_node))"
  by pat_completeness auto
termination
  by (relation "measures [\<lambda>(g, nodes_in_cycle, path, visited, current). length nodes_in_cycle,
      \<lambda>(g, nodes_in_cycle, path, visited, current).
         length nodes_in_cycle * 2 + 1 - length path]") auto

declare find_cycle_walk.simps [simp del]

definition find_cycle_path :: "DependencyGraph \<Rightarrow> string list \<Rightarrow> graph_error + string list" where
  "find_cycle_path g nodes_in_cycle =
     (case nodes_in_cycle of
        [] \<Rightarrow> Inr []
      | start # _ \<Rightarrow> find_cycle_walk g nodes_in_cycle [start] {start} start)"

subsection \<open>The public queries\<close>

text \<open>
  The keys of \<open>in_degree\<close> are the nodes, so the two comprehensions that read it for every
  node cannot miss a key.
\<close>

definition get_ordered_resources :: "DependencyGraph \<Rightarrow> graph_error + string list" where
  "get_ordered_resources g =
     (case in_degree_init g (nodes g) of
        Inl e \<Rightarrow> Inl e
      | Inr in_degree \<Rightarrow>
          (let queue = filter (\<lambda>node. map_of in_degree node = Some 0) (nodes g)
           in case kahn_loop g queue [] in_degree of
                Inl e \<Rightarrow> Inl e
              | Inr (ordered, in_degree') \<Rightarrow>
                  (let remaining =
                         filter (\<lambda>node. case map_of in_degree' node of
                                           None \<Rightarrow> False | Some k \<Rightarrow> 0 < k) (nodes g)
                   in if remaining \<noteq> [] then
                        (case find_cycle_path g remaining of
                           Inl e \<Rightarrow> Inl e
                         | Inr cycle_path \<Rightarrow> Inl (CyclicDependencyError cycle_path))
                      else Inr ordered)))"

text \<open>\<open>has_cycle\<close> catches \<open>CyclicDependencyError\<close> and nothing else.\<close>

definition has_cycle :: "DependencyGraph \<Rightarrow> graph_error + bool" where
  "has_cycle g =
     (case get_ordered_resources g of
        Inr ordered \<Rightarrow> Inr False
      | Inl (CyclicDependencyError cycle_path) \<Rightarrow> Inr True
      | Inl e \<Rightarrow> Inl e)"

definition get_dependencies :: "DependencyGraph \<Rightarrow> string \<Rightarrow> string list" where
  "get_dependencies g node = (case reverse_graph g node of None \<Rightarrow> [] | Some deps \<Rightarrow> deps)"

definition get_dependents :: "DependencyGraph \<Rightarrow> string \<Rightarrow> string list" where
  "get_dependents g node = (case graph g node of None \<Rightarrow> [] | Some deps \<Rightarrow> deps)"

subsection \<open>Deployment batches\<close>

definition next_batch :: "DependencyGraph \<Rightarrow> string list \<Rightarrow> string set \<Rightarrow> string list" where
  "next_batch g ordered deployed =
     filter (\<lambda>resource. resource \<notin> deployed
               \<and> list_all (\<lambda>dep. dep \<in> deployed) (get_dependencies g resource)) ordered"

text \<open>
  The loop \<open>while len(deployed) < len(ordered)\<close>. A batch that is not empty holds
  resources of \<open>ordered\<close> that were not deployed, so fewer of them are left for the next
  round.
\<close>

function batches_loop ::
  "DependencyGraph \<Rightarrow> string list \<Rightarrow> string list list \<Rightarrow> string set
     \<Rightarrow> graph_error + string list list" where
  "batches_loop g ordered batches deployed =
     (if card deployed < length ordered then
        (let batch = next_batch g ordered deployed
         in if batch = [] then Inl (RuntimeError ''Unable to form deployment batch'')
            else batches_loop g ordered (batches @ [batch]) (deployed \<union> set batch))
      else Inr batches)"
  by pat_completeness auto
termination
proof (relation "measure (\<lambda>(g, ordered, batches, deployed).
    length (filter (\<lambda>r. r \<notin> deployed) ordered))")
  show "wf (measure (\<lambda>(g, ordered, batches, deployed).
    length (filter (\<lambda>r. r \<notin> deployed) ordered)))" by simp
next
  fix g :: DependencyGraph and ordered batches deployed batch
  assume b: "batch = next_batch g ordered deployed" and ne: "batch \<noteq> []"
  from ne have "\<exists>r. r \<in> set batch" by (cases batch) auto
  then obtain r where r: "r \<in> set batch" by blast
  then have r': "r \<in> set ordered" "r \<notin> deployed" using b by (auto simp: next_batch_def)
  have "length (filter (\<lambda>r. r \<notin> deployed \<union> set batch) ordered)
      = length (filter (\<lambda>x. x \<notin> set batch) (filter (\<lambda>r. r \<notin> deployed) ordered))"
    by simp
  also have "\<dots> < length (filter (\<lambda>r. r \<notin> deployed) ordered)"
  proof (rule length_filter_less)
    show "r \<in> set (filter (\<lambda>r. r \<notin> deployed) ordered)" using r' by simp
    show "\<not> r \<notin> set batch" using r by simp
  qed
  finally have "length (filter (\<lambda>r. r \<notin> deployed \<union> set batch) ordered)
      < length (filter (\<lambda>r. r \<notin> deployed) ordered)" .
  then show "((g, ordered, batches @ [batch], deployed \<union> set batch), g, ordered, batches, deployed)
      \<in> measure (\<lambda>(g, ordered, batches, deployed). length (filter (\<lambda>r. r \<notin> deployed) ordered))"
    by simp
qed

declare batches_loop.simps [simp del]

definition get_deployment_batches :: "DependencyGraph \<Rightarrow> graph_error + string list list" where
  "get_deployment_batches g =
     (case get_ordered_resources g of
        Inl e \<Rightarrow> Inl e
      | Inr ordered \<Rightarrow> batches_loop g ordered [] {})"

subsection \<open>Graphs, edges and orders, for the statements\<close>

text \<open>
  An edge leads from a dependency to a node that depends on it. A graph is well formed
  when it is as the constructor and the mutators leave it: no node twice, both
  dictionaries defined exactly on the nodes, their lists without repetition and within
  the nodes, and each dictionary the reverse of the other.
\<close>

definition edges :: "DependencyGraph \<Rightarrow> (string \<times> string) set" where
  "edges g = {(d, n). \<exists>ds. graph g d = Some ds \<and> n \<in> set ds}"

definition wf_graph :: "DependencyGraph \<Rightarrow> bool" where
  "wf_graph g =
     (distinct (nodes g)
      \<and> dom (graph g) = set (nodes g)
      \<and> dom (reverse_graph g) = set (nodes g)
      \<and> (\<forall>n ds. graph g n = Some ds \<longrightarrow> distinct ds \<and> set ds \<subseteq> set (nodes g))
      \<and> (\<forall>n rs. reverse_graph g n = Some rs \<longrightarrow> distinct rs \<and> set rs \<subseteq> set (nodes g))
      \<and> (\<forall>n d. (\<exists>ds. graph g d = Some ds \<and> n \<in> set ds)
                 = (\<exists>rs. reverse_graph g n = Some rs \<and> d \<in> set rs)))"

text \<open>\<open>a\<close> stands before \<open>b\<close> in a list: at a smaller index.\<close>

definition precedes :: "'a list \<Rightarrow> 'a \<Rightarrow> 'a \<Rightarrow> bool" where
  "precedes xs a b = (\<exists>i j. i < j \<and> j < length xs \<and> xs ! i = a \<and> xs ! j = b)"

text \<open>\<open>a\<close> lies in an earlier batch than \<open>b\<close>.\<close>

definition earlier_batch :: "'a list list \<Rightarrow> 'a \<Rightarrow> 'a \<Rightarrow> bool" where
  "earlier_batch bs a b =
     (\<exists>i j. i < j \<and> j < length bs \<and> a \<in> set (bs ! i) \<and> b \<in> set (bs ! j))"

text \<open>
  A list is in dependency order when the dependencies of each element stand before it.
\<close>

definition dependency_order :: "DependencyGraph \<Rightarrow> string list \<Rightarrow> bool" where
  "dependency_order g xs =
     (\<forall>i < length xs. set (get_dependencies g (xs ! i)) \<subseteq> set (take i xs))"

text \<open>
  The invariant of the loop of Kahn's algorithm: the order and the queue are lists of
  nodes without repetition; the in-degree of a node counts its dependencies that are not
  in the order yet; the nodes in the order or on the queue are those whose dependencies
  are all in the order; and the order is a dependency order.
\<close>

definition kahn_inv ::
  "DependencyGraph \<Rightarrow> string list \<Rightarrow> string list \<Rightarrow> (string \<times> int) list \<Rightarrow> bool" where
  "kahn_inv g queue ordered in_degree =
     (distinct (ordered @ queue)
      \<and> set (ordered @ queue) \<subseteq> set (nodes g)
      \<and> map fst in_degree = nodes g
      \<and> (\<forall>n \<in> set (nodes g). map_of in_degree n
            = Some (int (length (filter (\<lambda>d. d \<notin> set ordered) (get_dependencies g n)))))
      \<and> (\<forall>n \<in> set (nodes g). (n \<in> set (ordered @ queue))
            = (set (get_dependencies g n) \<subseteq> set ordered))
      \<and> dependency_order g ordered)"

text \<open>
  The invariant of the batching loop: the deployed set is what the batches hold, no
  resource twice, all from the order; no batch is empty; and every dependency of a
  resource of a batch lies in an earlier batch.
\<close>

definition batch_inv ::
  "DependencyGraph \<Rightarrow> string list \<Rightarrow> string list list \<Rightarrow> string set \<Rightarrow> bool" where
  "batch_inv g ordered batches deployed =
     (deployed = set (concat batches)
      \<and> distinct (concat batches)
      \<and> deployed \<subseteq> set ordered
      \<and> [] \<notin> set batches
      \<and> (\<forall>j < length batches. \<forall>n \<in> set (batches ! j). \<forall>d \<in> set (get_dependencies g n).
            \<exists>i < j. d \<in> set (batches ! i)))"

text \<open>
  A walk along dependencies: each element is a dependency of the one before it, so the
  edges lead from the later elements of the walk to the earlier ones.
\<close>

definition dependency_walk :: "DependencyGraph \<Rightarrow> string list \<Rightarrow> bool" where
  "dependency_walk g p = (\<forall>i. Suc i < length p \<longrightarrow> (p ! Suc i, p ! i) \<in> edges g)"

text \<open>
  The nodes that Kahn's algorithm leaves are stuck: each has a dependency among them.
\<close>

definition stuck_nodes :: "DependencyGraph \<Rightarrow> string list \<Rightarrow> bool" where
  "stuck_nodes g ns =
     (\<forall>n \<in> set ns. reverse_graph g n = Some (get_dependencies g n)
        \<and> (\<exists>d \<in> set (get_dependencies g n). d \<in> set ns))"

text \<open>The invariant of the walk of \<open>_find_cycle_path\<close>.\<close>

definition walk_inv :: "DependencyGraph \<Rightarrow> string list \<Rightarrow> string list \<Rightarrow> string set \<Rightarrow> string \<Rightarrow> bool" where
  "walk_inv g ns p visited current =
     (p \<noteq> [] \<and> last p = current \<and> visited = set p \<and> distinct p \<and> set p \<subseteq> set ns
      \<and> dependency_walk g p)"

section \<open>Resource deployer (validation/resource\_deployer\_simple.py)\<close>

text \<open>
  The members of \<open>DeploymentState\<close> carry the prefix \<open>DS\<close>: two of them have the names of
  members of \<open>ValidationStage\<close>.
\<close>

datatype DeploymentState = DS_PENDING | DS_VALIDATING | DS_DEPLOYING | DS_DEPLOYED | DS_FAILED

record ResourceDeployment =
  resource_id :: string
  resource_type :: string
  resource_name :: string
  deployment_order :: int
  deployment_status :: DeploymentState
  bicep_template_path :: string
  output_values :: "(string \<times> string) list"

text \<open>
  The result without its identifier, time stamp and duration. The fields \<open>success\<close> and
  \<open>deployment_outputs\<close> of \<open>DeploymentResult\<close> carry the prefix \<open>result\<close> here.
\<close>

record DeploymentResult =
  result_success :: bool
  deployed_resources :: "ResourceDeployment list"
  result_resource_group :: string
  result_subscription_id :: string
  result_outputs :: "(string \<times> string) list"
  error_messages :: "string list"

text \<open>
  The deployer's configuration: \<open>retry_max_attempts\<close> is \<open>_retry_policy.max_attempts\<close>,
  which the constructor sets to 3.
\<close>

record ResourceDeployer =
  resource_group :: string
  subscription_id :: "string option"
  force_redeploy :: bool
  enable_rollback :: bool
  retry_max_attempts :: int

definition ResourceDeployer_init :: "string \<Rightarrow> bool \<Rightarrow> bool \<Rightarrow> ResourceDeployer" where
  "ResourceDeployer_init rg force rollback =
     \<lparr>resource_group = rg, subscription_id = None, force_redeploy = force,
      enable_rollback = rollback, retry_max_attempts = 3\<rparr>"

text \<open>
  The provisioning backend (\<open>AzureCLIWrapper\<close>) is outside the core: each of its four
  operations is a transformer of a world \<open>'w\<close> that returns a value or raises (\<open>Inl\<close>, with
  the text of the exception). \<open>get_resource\<close> returns \<open>None\<close> or a description of the
  resource; the result of a validation has the key \<open>valid\<close> and may have \<open>error\<close>; the
  result of a deployment may have the key \<open>outputs\<close>.
\<close>

record validation_result =
  valid :: bool
  validation_error :: "string option"

record 'w AzureCLI =
  get_resource :: "string \<Rightarrow> 'w \<Rightarrow> (string + string option) \<times> 'w"
  validate_template :: "string \<Rightarrow> string \<Rightarrow> 'w \<Rightarrow> (string + validation_result) \<times> 'w"
  deploy_template ::
    "string \<Rightarrow> string \<Rightarrow> string \<Rightarrow> 'w \<Rightarrow> (string + (string \<times> string) list option) \<times> 'w"
  delete_resource :: "string \<Rightarrow> 'w \<Rightarrow> (string + unit) \<times> 'w"

text \<open>
  The model records every call of the backend, as a mock of the backend would, together
  with the identifier of the resource for which the deployer issues it. The state of a
  run is the world, this record of calls, and the deployer's list
  \<open>_deployed_resources\<close>.
\<close>

datatype azure_call =
    GetResource string
  | ValidateTemplate string string
  | DeployTemplate string string string
  | DeleteResource string

record 'w deploy_state =
  world :: 'w
  backend_calls :: "(string \<times> azure_call) list"
  deployed_log :: "ResourceDeployment list"

definition record_call :: "string \<Rightarrow> azure_call \<Rightarrow> 'w \<Rightarrow> 'w deploy_state \<Rightarrow> 'w deploy_state" where
  "record_call rid c w st = st\<lparr>world := w, backend_calls := backend_calls st @ [(rid, c)]\<rparr>"

definition check_resource_exists ::
  "'w AzureCLI \<Rightarrow> ResourceDeployment \<Rightarrow> 'w deploy_state \<Rightarrow> bool \<times> 'w deploy_state" where
  "check_resource_exists cli deployment st =
     (case get_resource cli (resource_id deployment) (world st) of
        (Inr result, w) \<Rightarrow>
          (result \<noteq> None,
           record_call (resource_id deployment) (GetResource (resource_id deployment)) w st)
      | (Inl e, w) \<Rightarrow>
          (False,
           record_call (resource_id deployment) (GetResource (resource_id deployment)) w st))"

text \<open>
  The two retry loops \<open>for attempt in range(max_attempts)\<close>, from the value \<open>attempt\<close> on.
  The pauses between attempts only take time and are left out. The validation loop ends
  normally (\<open>None\<close>) or with the exception of its last attempt.
\<close>

function validate_loop ::
  "ResourceDeployer \<Rightarrow> 'w AzureCLI \<Rightarrow> ResourceDeployment \<Rightarrow> int \<Rightarrow> 'w deploy_state
     \<Rightarrow> string option \<times> 'w deploy_state" where
  "validate_loop self cli deployment attempt st =
     (if attempt < retry_max_attempts self then
        (case validate_template cli (resource_group self) (bicep_template_path deployment)
                (world st) of
           (r, w) \<Rightarrow>
             (let st' = record_call (resource_id deployment)
                          (ValidateTemplate (resource_group self) (bicep_template_path deployment))
                          w st;
                  raised = (case r of
                              Inl e \<Rightarrow> Some e
                            | Inr validation \<Rightarrow>
                                if \<not> valid validation
                                then Some (''Template validation failed: ''
                                             @ (case validation_error validation of
                                                  None \<Rightarrow> ''None'' | Some m \<Rightarrow> m))
                                else None)
              in case raised of
                   None \<Rightarrow> (None, st')
                 | Some e \<Rightarrow>
                     if attempt < retry_max_attempts self - 1
                     then validate_loop self cli deployment (attempt + 1) st'
                     else (Some e, st')))
      else (None, st))"
  by pat_completeness auto
termination
  by (relation "measure (\<lambda>(self, cli, deployment, attempt, st).
        nat (retry_max_attempts self - attempt))") auto

declare validate_loop.simps [simp del]

text \<open>
  \<open>dict.update\<close> on the output values, and the deployment loop. The loop ends with a
  return of \<open>True\<close> (\<open>Inr\<close> of the deployment with its outputs), with the exception of its
  last attempt (\<open>Inl (Some e)\<close>), or by running out of its range (\<open>Inl None\<close>), which
  happens only when \<open>max_attempts\<close> is not positive. The deployment name passed to the
  backend is \<open>deploy-\<close>, the resource name and a time stamp; the stamp is left out.
\<close>

definition dict_update :: "(string \<times> string) list \<Rightarrow> (string \<times> string) list \<Rightarrow> (string \<times> string) list" where
  "dict_update d new = foldl (\<lambda>al (k, v). AList.update k v al) d new"

function deploy_loop ::
  "ResourceDeployer \<Rightarrow> 'w AzureCLI \<Rightarrow> ResourceDeployment \<Rightarrow> int \<Rightarrow> 'w deploy_state
     \<Rightarrow> (string option + ResourceDeployment) \<times> 'w deploy_state" where
  "deploy_loop self cli deployment attempt st =
     (if attempt < retry_max_attempts self then
        (case deploy_template cli (resource_group self) (bicep_template_path deployment)
                (''deploy-'' @ resource_name deployment) (world st) of
           (r, w) \<Rightarrow>
             (let st' = record_call (resource_id deployment)
                          (DeployTemplate (resource_group self) (bicep_template_path deployment)
                             (''deploy-'' @ resource_name deployment))
                          w st
              in case r of
                   Inr deploy_result \<Rightarrow>
                     (let deployment' =
                            (case deploy_result of
                               None \<Rightarrow> deployment
                             | Some outputs \<Rightarrow>
                                 deployment\<lparr>output_values :=
                                   dict_update (output_values deployment) outputs\<rparr>)
                      in (Inr deployment',
                          st'\<lparr>deployed_log := deployed_log st' @ [deployment']\<rparr>))
                 | Inl e \<Rightarrow>
                     if attempt < retry_max_attempts self - 1
                     then deploy_loop self cli deployment (attempt + 1) st'
                     else (Inl (Some e), st')))
      else (Inl None, st))"
  by pat_completeness auto
termination
  by (relation "measure (\<lambda>(self, cli, deployment, attempt, st).
        nat (retry_max_attempts self - attempt))") auto

declare deploy_loop.simps [simp del]

text \<open>
  \<open>_deploy_single\<close> returns its boolean and the deployment, whose output values it may
  have updated. Every exception is caught inside and gives \<open>False\<close>.
\<close>

definition deploy_single ::
  "ResourceDeployer \<Rightarrow> 'w AzureCLI \<Rightarrow> ResourceDeployment \<Rightarrow> 'w deploy_state
     \<Rightarrow> (bool \<times> ResourceDeployment) \<times> 'w deploy_state" where
  "deploy_single self cli deployment st =
     (case (if \<not> force_redeploy self then check_resource_exists cli deployment st
            else (False, st)) of
        (already_exists, st1) \<Rightarrow>
          if already_exists
          then ((True, deployment), st1\<lparr>deployed_log := deployed_log st1 @ [deployment]\<rparr>)
          else
            (case validate_loop self cli deployment 0 st1 of
               (Some e, st2) \<Rightarrow> ((False, deployment), st2)
             | (None, st2) \<Rightarrow>
                 (case deploy_loop self cli deployment 0 st2 of
                    (Inr deployment', st3) \<Rightarrow> ((True, deployment'), st3)
                  | (Inl e, st3) \<Rightarrow> ((False, deployment), st3))))"

text \<open>
  \<open>_deploy_with_progress\<close> and \<open>_deploy_without_progress\<close> run the same loop; one also
  draws a progress bar. The handler around \<open>_deploy_single\<close> never runs, since
  \<open>_deploy_single\<close> does not raise. The loop carries the three lists it returns.
\<close>

definition namespaced_outputs :: "ResourceDeployment \<Rightarrow> (string \<times> string) list" where
  "namespaced_outputs deployment =
     map (\<lambda>(key, v). (resource_id deployment @ ''/'' @ key, v)) (output_values deployment)"

fun deploy_all ::
  "ResourceDeployer \<Rightarrow> 'w AzureCLI \<Rightarrow> ResourceDeployment list
     \<Rightarrow> ResourceDeployment list \<times> (string \<times> string) list \<times> string list
     \<Rightarrow> 'w deploy_state
     \<Rightarrow> (ResourceDeployment list \<times> (string \<times> string) list \<times> string list) \<times> 'w deploy_state" where
  "deploy_all self cli [] acc st = (acc, st)"
| "deploy_all self cli (deployment # rest) (deployed, outputs, errors) st =
     (case deploy_single self cli deployment st of
        ((result, deployment'), st') \<Rightarrow>
          if result
          then deploy_all self cli rest
                 (deployed @ [deployment'],
                  dict_update outputs (namespaced_outputs deployment'), errors) st'
          else deploy_all self cli rest
                 (deployed, outputs,
                  errors @ [''Deployment failed for '' @ resource_name deployment']) st')"

text \<open>Rollback: the deployed resources in reverse; a failed deletion is only logged.\<close>

fun delete_all :: "'w AzureCLI \<Rightarrow> ResourceDeployment list \<Rightarrow> 'w deploy_state \<Rightarrow> 'w deploy_state" where
  "delete_all cli [] st = st"
| "delete_all cli (deployment # rest) st =
     (case delete_resource cli (resource_id deployment) (world st) of
        (r, w) \<Rightarrow>
          delete_all cli rest
            (record_call (resource_id deployment) (DeleteResource (resource_id deployment)) w st))"

definition rollback_deployments ::
  "'w AzureCLI \<Rightarrow> ResourceDeployment list \<Rightarrow> 'w deploy_state \<Rightarrow> 'w deploy_state" where
  "rollback_deployments cli deployed st = delete_all cli (rev deployed) st"

text \<open>
  The sort key of \<open>deploy_resources\<close>: the index of the resource in the topological order,
  or 999. \<open>sorted\<close> is stable, as \<open>sort_key\<close> is.
\<close>

definition order_key :: "string list \<Rightarrow> ResourceDeployment \<Rightarrow> nat" where
  "order_key ordered_ids d =
     (case index_of ordered_ids (resource_id d) of None \<Rightarrow> 999 | Some i \<Rightarrow> i)"

datatype deploy_error = ValidationError string | GraphError graph_error

definition deploy_resources ::
  "ResourceDeployer \<Rightarrow> 'w AzureCLI \<Rightarrow> ResourceDeployment list \<Rightarrow> DependencyGraph option
     \<Rightarrow> 'w deploy_state \<Rightarrow> deploy_error + (DeploymentResult \<times> 'w deploy_state)" where
  "deploy_resources self cli deployments dependency_graph st =
     (case (case dependency_graph of
              None \<Rightarrow> Inr False
            | Some g \<Rightarrow> has_cycle g) of
        Inl e \<Rightarrow> Inl (GraphError e)
      | Inr True \<Rightarrow> Inl (ValidationError ''Circular dependency detected in resource graph'')
      | Inr False \<Rightarrow>
          (let deployments' =
                 (case dependency_graph of
                    None \<Rightarrow> deployments
                  | Some g \<Rightarrow>
                      (case get_ordered_resources g of
                         Inl e \<Rightarrow> deployments
                       | Inr ordered_ids \<Rightarrow> sort_key (order_key ordered_ids) deployments))
           in case deploy_all self cli deployments' ([], [], []) st of
                ((deployed, outputs, errors), st1) \<Rightarrow>
                  (let ok = (length errors = 0 \<and> length deployed > 0);
                       st2 = (if \<not> ok \<and> enable_rollback self \<and> deployed \<noteq> []
                              then rollback_deployments cli deployed st1 else st1)
                   in Inr (\<lparr>result_success = ok, deployed_resources = deployed,
                             result_resource_group = resource_group self,
                             result_subscription_id =
                               (case subscription_id self of
                                  None \<Rightarrow> ''default''
                                | Some s \<Rightarrow> if s = [] then ''default'' else s),
                             result_outputs = outputs, error_messages = errors\<rparr>, st2))))"

section \<open>Fix orchestrator (validation/fix\_orchestrator.py)\<close>

subsection \<open>Strings\<close>

text \<open>
  Python's \<open>str(n)\<close>, \<open>sep.join(xs)\<close>, \<open>s.lower()\<close> and \<open>kw in s\<close>, on strings of
  ASCII characters.
\<close>

fun str_nat :: "nat \<Rightarrow> string" where
  "str_nat n =
     (if n < 10 then [char_of (48 + n)]
      else str_nat (n div 10) @ [char_of (48 + n mod 10)])"

declare str_nat.simps [simp del]

definition str_int :: "int \<Rightarrow> string" where
  "str_int i = (if i < 0 then ''-'' @ str_nat (nat (- i)) else str_nat (nat i))"

fun join :: "string \<Rightarrow> string list \<Rightarrow> string" where
  "join sep [] = []"
| "join sep [x] = x"
| "join sep (x # y # ys) = x @ sep @ join sep (y # ys)"

definition lower_char :: "char \<Rightarrow> char" where
  "lower_char c =
     (let n = (of_char c :: nat) in if 65 \<le> n \<and> n \<le> 90 then char_of (n + 32) else c)"

definition lower :: "string \<Rightarrow> string" where
  "lower s = map lower_char s"

fun starts_with :: "string \<Rightarrow> string \<Rightarrow> bool" where
  "starts_with [] s = True"
| "starts_with (k # ks) [] = False"
| "starts_with (k # ks) (c # s) = (k = c \<and> starts_with ks s)"

fun substring :: "string \<Rightarrow> string \<Rightarrow> bool" where
  "substring kw [] = (kw = [])"
| "substring kw (c # s) = (starts_with kw (c # s) \<or> substring kw s)"

definition any_keyword :: "string list \<Rightarrow> string \<Rightarrow> bool" where
  "any_keyword kws s = list_ex (\<lambda>kw. substring kw s) kws"

subsection \<open>Data\<close>

datatype TestStatus = SUCCESS | FAILURE | TIMEOUT | AUTH_ERROR | SERVER_ERROR | SKIPPED

record Endpoint =
  "method" :: string
  path :: string
  requires_auth :: bool

record TestResult =
  endpoint :: Endpoint
  status :: TestStatus
  status_code :: "int option"
  error_message :: "string option"

text \<open>
  The categories \<open>TIMEOUT\<close>, \<open>AUTH_ERROR\<close> and \<open>SERVER_ERROR\<close> of \<open>ErrorCategory\<close> have
  the names of members of \<open>TestStatus\<close>; every member of \<open>ErrorCategory\<close> is written
  with the prefix \<open>EC\<close> here.
\<close>

datatype ErrorCategory =
    EC_TIMEOUT | EC_AUTH_ERROR | EC_SERVER_ERROR | EC_TEMPLATE_ISSUE
  | EC_DEPENDENCY_ISSUE | EC_CONFIGURATION_ISSUE | EC_NETWORK_ISSUE | EC_UNKNOWN

datatype FixStrategy =
  RETRY | UPDATE_TEMPLATE | UPDATE_DEPENDENCIES | RECONFIGURE | MANUAL_INTERVENTION

fun category_value :: "ErrorCategory \<Rightarrow> string" where
  "category_value EC_TIMEOUT = ''timeout''"
| "category_value EC_AUTH_ERROR = ''auth_error''"
| "category_value EC_SERVER_ERROR = ''server_error''"
| "category_value EC_TEMPLATE_ISSUE = ''template_issue''"
| "category_value EC_DEPENDENCY_ISSUE = ''dependency_issue''"
| "category_value EC_CONFIGURATION_ISSUE = ''configuration_issue''"
| "category_value EC_NETWORK_ISSUE = ''network_issue''"
| "category_value EC_UNKNOWN = ''unknown''"

text \<open>
  The fields \<open>success\<close> and \<open>error_message\<close> of \<open>FixAttempt\<close> are \<open>attempt_success\<close> and
  \<open>attempt_error_message\<close> here: other classes of the program have fields of those names.
\<close>

record FixAttempt =
  error_category :: ErrorCategory
  fix_strategy :: FixStrategy
  description :: string
  attempt_success :: bool
  attempt_error_message :: "string option"

record FixOrchestrator =
  project_root :: string
  max_fix_attempts :: int
  enable_template_fixes :: bool
  fix_attempts :: "FixAttempt list"
  circuit_breaker_open :: bool

definition FixOrchestrator_init :: "string \<Rightarrow> int \<Rightarrow> bool \<Rightarrow> FixOrchestrator" where
  "FixOrchestrator_init root_dir n template_fixes =
     \<lparr>project_root = root_dir, max_fix_attempts = n,
      enable_template_fixes = template_fixes, fix_attempts = [],
      circuit_breaker_open = False\<rparr>"

subsection \<open>Classification\<close>

text \<open>
  The dictionary from categories to messages keeps its keys in the order of their first
  insertion, and the dispatch loop runs over it in that order: it is an association list.
\<close>

type_synonym classifications = "(ErrorCategory \<times> string list) list"

definition setdefault_append :: "ErrorCategory \<Rightarrow> string \<Rightarrow> classifications \<Rightarrow> classifications" where
  "setdefault_append category message cl =
     (case map_of cl category of
        None \<Rightarrow> cl @ [(category, [message])]
      | Some messages \<Rightarrow> AList.update category (messages @ [message]) cl)"

definition str_optional_int :: "int option \<Rightarrow> string" where
  "str_optional_int c = (case c of None \<Rightarrow> ''None'' | Some i \<Rightarrow> str_int i)"

definition str_optional :: "string option \<Rightarrow> string" where
  "str_optional m = (case m of None \<Rightarrow> ''None'' | Some s \<Rightarrow> s)"

definition classify_result :: "TestResult \<Rightarrow> classifications \<Rightarrow> classifications" where
  "classify_result result cl =
     (if status result = TIMEOUT then
        setdefault_append EC_TIMEOUT
          (''Endpoint timeout: '' @ method (endpoint result) @ '' '' @ path (endpoint result)) cl
      else if status result = AUTH_ERROR then
        setdefault_append EC_AUTH_ERROR
          (''Authentication error: '' @ method (endpoint result) @ '' ''
             @ path (endpoint result)) cl
      else if status result = SERVER_ERROR then
        setdefault_append EC_SERVER_ERROR
          (''Server error ('' @ str_optional_int (status_code result) @ ''): ''
             @ method (endpoint result) @ '' '' @ path (endpoint result)) cl
      else if status result = FAILURE then
        setdefault_append EC_UNKNOWN
          (''Test failure: '' @ method (endpoint result) @ '' '' @ path (endpoint result)
             @ '' - '' @ str_optional (error_message result)) cl
      else cl)"

definition classify_deployment_error :: "string \<Rightarrow> ErrorCategory" where
  "classify_deployment_error message =
     (let error_lower = lower message in
      if any_keyword [''template'', ''bicep'', ''syntax'', ''validation'', ''schema''] error_lower
      then EC_TEMPLATE_ISSUE
      else if any_keyword [''dependency'', ''resource not found'', ''does not exist''] error_lower
      then EC_DEPENDENCY_ISSUE
      else if any_keyword [''configuration'', ''setting'', ''parameter'', ''invalid value'']
                error_lower
      then EC_CONFIGURATION_ISSUE
      else if any_keyword [''network'', ''timeout'', ''connection'', ''unreachable''] error_lower
      then EC_NETWORK_ISSUE
      else if any_keyword [''auth'', ''permission'', ''forbidden'', ''unauthorized''] error_lower
      then EC_AUTH_ERROR
      else EC_UNKNOWN)"

definition classify_errors :: "TestResult list \<Rightarrow> string list option \<Rightarrow> classifications" where
  "classify_errors test_results deployment_errors =
     (let cl = foldl (\<lambda>cl result. classify_result result cl) [] test_results
      in case deployment_errors of
           None \<Rightarrow> cl
         | Some errors \<Rightarrow>
             if errors \<noteq> []
             then foldl (\<lambda>cl e. setdefault_append (classify_deployment_error e) e cl) cl errors
             else cl)"

subsection \<open>Strategies\<close>

fun select_fix_strategy :: "ErrorCategory \<Rightarrow> FixStrategy" where
  "select_fix_strategy EC_TIMEOUT = RETRY"
| "select_fix_strategy EC_AUTH_ERROR = RECONFIGURE"
| "select_fix_strategy EC_SERVER_ERROR = UPDATE_TEMPLATE"
| "select_fix_strategy EC_TEMPLATE_ISSUE = UPDATE_TEMPLATE"
| "select_fix_strategy EC_DEPENDENCY_ISSUE = UPDATE_DEPENDENCIES"
| "select_fix_strategy EC_CONFIGURATION_ISSUE = RECONFIGURE"
| "select_fix_strategy EC_NETWORK_ISSUE = RETRY"
| "select_fix_strategy EC_UNKNOWN = MANUAL_INTERVENTION"

text \<open>
  The template fix runs the command \<open>specify bicep --issue ...\<close> as a subprocess. The
  subprocess is the outside world: a transformer of a world \<open>'w\<close> that ends with a return
  code or with one of the exceptions the source tells apart.
\<close>

datatype subprocess_outcome =
  Completed int | TimeoutExpired | FileNotFoundError | OtherException

type_synonym 'w subprocess = "string \<Rightarrow> 'w \<Rightarrow> subprocess_outcome \<times> 'w"

definition fix_template_issue :: "'w subprocess \<Rightarrow> string \<Rightarrow> 'w \<Rightarrow> bool \<times> 'w" where
  "fix_template_issue sp issue_description w =
     (case sp issue_description w of
        (Completed returncode, w') \<Rightarrow> (returncode = 0, w')
      | (TimeoutExpired, w') \<Rightarrow> (False, w')
      | (FileNotFoundError, w') \<Rightarrow> (True, w')
      | (OtherException, w') \<Rightarrow> (False, w'))"

text \<open>
  \<open>fix_template_issue\<close> catches every exception of the subprocess, so the handler around
  its call in \<open>_fix_template_issues\<close> never runs.
\<close>

definition fix_template_issues ::
  "'w subprocess \<Rightarrow> FixOrchestrator \<Rightarrow> string list \<Rightarrow> 'w \<Rightarrow> bool \<times> 'w" where
  "fix_template_issues sp orch messages w =
     (if \<not> enable_template_fixes orch then (False, w)
      else fix_template_issue sp (join '' | '' messages) w)"

definition fix_dependency_issues :: "string list \<Rightarrow> bool" where
  "fix_dependency_issues messages = False"

definition fix_configuration_issues :: "string list \<Rightarrow> bool" where
  "fix_configuration_issues messages = False"

text \<open>
  One round of the loop of \<open>_dispatch_fixes\<close>: the strategy's outcome, then the record.
\<close>

definition run_strategy ::
  "'w subprocess \<Rightarrow> FixOrchestrator \<Rightarrow> FixStrategy \<Rightarrow> string list \<Rightarrow> 'w \<Rightarrow> bool \<times> 'w" where
  "run_strategy sp orch strategy messages w =
     (if strategy = UPDATE_TEMPLATE then fix_template_issues sp orch messages w
      else if strategy = UPDATE_DEPENDENCIES then (fix_dependency_issues messages, w)
      else if strategy = RECONFIGURE then (fix_configuration_issues messages, w)
      else if strategy = RETRY then (True, w)
      else if strategy = MANUAL_INTERVENTION then (False, w)
      else (False, w))"

definition make_fix_attempt :: "ErrorCategory \<Rightarrow> FixStrategy \<Rightarrow> string list \<Rightarrow> bool \<Rightarrow> FixAttempt" where
  "make_fix_attempt category strategy messages success =
     \<lparr>error_category = category, fix_strategy = strategy,
      description = ''Fixed '' @ str_nat (length messages) @ '' '' @ category_value category
                      @ '' error(s)'',
      attempt_success = success,
      attempt_error_message = (if success then None else Some ''Fix failed'')\<rparr>"

fun dispatch_loop ::
  "'w subprocess \<Rightarrow> classifications \<Rightarrow> bool \<Rightarrow> FixOrchestrator \<Rightarrow> 'w
     \<Rightarrow> bool \<times> FixOrchestrator \<times> 'w" where
  "dispatch_loop sp [] all_fixes_successful orch w = (all_fixes_successful, orch, w)"
| "dispatch_loop sp ((category, messages) # rest) all_fixes_successful orch w =
     (let strategy = select_fix_strategy category;
          (success, w') = run_strategy sp orch strategy messages w;
          fix_attempt = make_fix_attempt category strategy messages success;
          orch' = orch\<lparr>fix_attempts := fix_attempts orch @ [fix_attempt]\<rparr>
      in dispatch_loop sp rest (if \<not> success then False else all_fixes_successful) orch' w')"

definition dispatch_fixes ::
  "'w subprocess \<Rightarrow> classifications \<Rightarrow> FixOrchestrator \<Rightarrow> 'w \<Rightarrow> bool \<times> FixOrchestrator \<times> 'w" where
  "dispatch_fixes sp error_classifications orch w =
     dispatch_loop sp error_classifications True orch w"

definition attempt_fix ::
  "'w subprocess \<Rightarrow> FixOrchestrator \<Rightarrow> TestResult list \<Rightarrow> string list option \<Rightarrow> 'w
     \<Rightarrow> bool \<times> FixOrchestrator \<times> 'w" where
  "attempt_fix sp orch test_results deployment_errors w =
     (if circuit_breaker_open orch then (False, orch, w)
      else if int (length (fix_attempts orch)) \<ge> max_fix_attempts orch
      then (False, orch\<lparr>circuit_breaker_open := True\<rparr>, w)
      else
        (let error_classifications = classify_errors test_results deployment_errors
         in if error_classifications = [] then (True, orch, w)
            else dispatch_fixes sp error_classifications orch w))"

definition reset_circuit_breaker :: "FixOrchestrator \<Rightarrow> FixOrchestrator" where
  "reset_circuit_breaker orch = orch\<lparr>circuit_breaker_open := False, fix_attempts := []\<rparr>"



text \<open>A sequence of calls of \<open>attempt_fix\<close> on one orchestrator, with their results.\<close>

fun attempt_fixes ::
  "'w subprocess \<Rightarrow> FixOrchestrator \<Rightarrow> (TestResult list \<times> string list option) list \<Rightarrow> 'w
     \<Rightarrow> bool list \<times> FixOrchestrator \<times> 'w" where
  "attempt_fixes sp orch [] w = ([], orch, w)"
| "attempt_fixes sp orch ((test_results, deployment_errors) # rest) w =
     (case attempt_fix sp orch test_results deployment_errors w of
        (ok, orch', w') \<Rightarrow>
          (case attempt_fixes sp orch' rest w' of
             (oks, orch'', w'') \<Rightarrow> (ok # oks, orch'', w'')))"

section \<open>Validation session (validation/validation\_session.py)\<close>

datatype ValidationStage =
  INITIALIZING | DISCOVERING | ANALYZING | DEPLOYING | TESTING | FIXING | COMPLETED | FAILED

text \<open>
  The summary without its identifier and its time stamps. The fields \<open>deployment_errors\<close>,
  \<open>fix_attempts\<close> and \<open>error_message\<close> of \<open>ValidationSummary\<close> carry the prefix
  \<open>summary\<close> here.
\<close>

record ValidationSummary =
  current_stage :: ValidationStage
  stages_completed :: "ValidationStage list"
  projects_discovered :: nat
  projects_analyzed :: nat
  resources_deployed :: nat
  summary_deployment_errors :: nat
  secrets_stored :: int
  endpoints_discovered :: nat
  endpoints_tested :: nat
  tests_passed :: nat
  tests_failed :: nat
  tests_skipped :: nat
  summary_fix_attempts :: nat
  fixes_successful :: nat
  success :: bool
  summary_error_message :: "string option"


text \<open>
  The session: its configuration, its summary and its results. \<open>project_root\<close> and
  \<open>max_fix_attempts\<close> carry the prefix \<open>session\<close>; \<open>analyzer_set\<close> tells whether
  \<open>self.analyzer\<close> has been assigned.
\<close>

record 'p ValidationSession =
  session_project_root :: string
  keyvault_url :: "string option"
  enable_fixes :: bool
  session_max_fix_attempts :: int
  summary :: ValidationSummary
  analyzer_set :: bool
  fix_orchestrator :: "FixOrchestrator option"
  discovered_projects :: "'p list"
  deployment_outputs :: "(string \<times> string) list"
  discovered_endpoints :: "Endpoint list"
  test_results :: "TestResult list"

























section \<open>Concrete inputs used by the witnesses\<close>

text \<open>
  A breaker with both thresholds 2 and a timeout of 60, on a world that is only the
  clock; every guarded call takes one second.
\<close>

definition breaker_example :: "CircuitState \<Rightarrow> real option \<Rightarrow> CircuitBreaker" where
  "breaker_example s t =
     \<lparr>failure_threshold = 2, recovery_timeout = 60, success_threshold = 2,
      state = s, failure_count = 0, success_count = 0, last_failure_time = t\<rparr>"

definition failing_call :: "real \<Rightarrow> (unit + unit) \<times> real" where
  "failing_call w = (Inl (), w + 1)"

definition successful_call :: "real \<Rightarrow> (unit + unit) \<times> real" where
  "successful_call w = (Inr (), w + 1)"

text \<open>
  Test results on one endpoint, and a subprocess that counts its runs in the world and
  returns the code 0.
\<close>

definition result_example :: "TestStatus \<Rightarrow> TestResult" where
  "result_example s =
     \<lparr>endpoint = \<lparr>method = ''GET'', path = ''/api/test'', requires_auth = False\<rparr>,
      status = s, status_code = None, error_message = Some ''Test error''\<rparr>"

definition counting_subprocess :: "nat subprocess" where
  "counting_subprocess issue w = (Completed 0, Suc w)"


text \<open>
  The graph that a sequence of calls of the mutators builds, and the two graphs of the
  specification's example: the chain \<open>C\<close> depends on \<open>B\<close> depends on \<open>A\<close>, and the same
  with \<open>A\<close> depending on \<open>C\<close> and a fourth node behind the cycle.
\<close>

definition graph_of_ops :: "graph_op list \<Rightarrow> DependencyGraph" where
  "graph_of_ops ops = (case build ops of Inr g \<Rightarrow> g | Inl e \<Rightarrow> DependencyGraph_init)"

definition chain_graph :: DependencyGraph where
  "chain_graph = graph_of_ops [AddDependency ''B'' ''A'', AddDependency ''C'' ''B'']"

definition cyclic_graph :: DependencyGraph where
  "cyclic_graph = graph_of_ops
     [AddDependency ''B'' ''A'', AddDependency ''C'' ''B'', AddDependency ''A'' ''C'',
      AddDependency ''D'' ''C'']"

section \<open>Properties of the retry policy\<close>








section \<open>Properties of the circuit breaker\<close>

lemma call_fails_closed:
  assumes "fails f" "state cb = CLOSED"
  shows "fst (snd (call now cb f w)) = on_failure (now (snd (f w))) cb"
proof -
  obtain e w' where "f w = (Inl e, w')"
    using assms(1) unfolding fails_def by (metis isl_def prod.collapse)
  then show ?thesis using assms(2) by (simp add: call_def check_circuit_def)
qed

text \<open>
  Failures in the closed state count up; the one that brings the count to the threshold
  opens the circuit.
\<close>

lemma closed_failures:
  fixes fs :: "('w \<Rightarrow> ('e + 'a) \<times> 'w) list"
  assumes "\<forall>f\<in>set fs. fails f" "state cb = CLOSED"
    "failure_count cb + int (length fs) = failure_threshold cb" "fs \<noteq> []"
  shows "state (fst (calls now cb fs w)) = OPEN"
  using assms
proof (induction fs arbitrary: cb w)
  case Nil
  then show ?case by simp
next
  case (Cons f fs)
  let ?cb' = "on_failure (now (snd (f w))) cb"
  have f: "fails f" using Cons.prems(1) by simp
  obtain r cb1 w1 where c: "call now cb f w = (r, cb1, w1)" by (metis prod_cases3)
  have cb1: "cb1 = ?cb'" using call_fails_closed[OF f Cons.prems(2), of now w] c by simp
  show ?case
  proof (cases "fs = []")
    case True
    then have "failure_count cb + 1 = failure_threshold cb" using Cons.prems(3) by simp
    then have "state ?cb' = OPEN" using Cons.prems(2) by (simp add: on_failure_def Let_def)
    then show ?thesis using True c cb1 by simp
  next
    case False
    then have "failure_count cb + 1 < failure_threshold cb"
      using Cons.prems(3) by (cases fs) auto
    then have s: "state ?cb' = CLOSED" "failure_count ?cb' = failure_count cb + 1"
      "failure_threshold ?cb' = failure_threshold cb"
      using Cons.prems(2) by (simp_all add: on_failure_def Let_def)
    have "state (fst (calls now ?cb' fs w1)) = OPEN"
      using Cons.IH[of ?cb' w1] Cons.prems(1,3) s False by simp
    then show ?thesis using c cb1 by simp
  qed
qed

lemma open_rejects:
  assumes "state cb = OPEN" "last_failure_time cb = Some t" "t \<noteq> 0"
    "now w - t < recovery_timeout cb"
  shows "call now cb f w = (Inl CircuitBreakerError, cb, w)"
  using assms by (simp add: call_def check_circuit_def Let_def)

lemma open_recovers:
  assumes "state cb = OPEN" "last_failure_time cb = Some t" "t \<noteq> 0"
    "now w - t \<ge> recovery_timeout cb"
  shows "call now cb f w =
     (case f w of
        (Inr result, w') \<Rightarrow>
          (Inr result, on_success (cb\<lparr>state := HALF_OPEN, success_count := 0\<rparr>), w')
      | (Inl e, w') \<Rightarrow>
          (Inl (Raised e), on_failure (now w') (cb\<lparr>state := HALF_OPEN, success_count := 0\<rparr>), w'))"
  using assms by (simp add: call_def check_circuit_def Let_def)

lemma call_succeeds_not_open:
  assumes "succeeds f" "state cb \<noteq> OPEN"
  shows "fst (snd (call now cb f w)) = on_success cb"
proof -
  obtain r w' where "f w = (Inr r, w')"
    using assms(1) unfolding succeeds_def by (metis sum.collapse(2) prod.collapse)
  then show ?thesis using assms(2) by (simp add: call_def check_circuit_def)
qed

text \<open>
  Successes in the half-open state count up; the one that brings the count to the
  threshold closes the circuit and clears both counters.
\<close>

lemma half_open_successes:
  fixes fs :: "('w \<Rightarrow> ('e + 'a) \<times> 'w) list"
  assumes "\<forall>f\<in>set fs. succeeds f" "state cb = HALF_OPEN"
    "success_count cb + int (length fs) = success_threshold cb" "fs \<noteq> []"
  shows "state (fst (calls now cb fs w)) = CLOSED
       \<and> failure_count (fst (calls now cb fs w)) = 0
       \<and> success_count (fst (calls now cb fs w)) = 0"
  using assms
proof (induction fs arbitrary: cb w)
  case Nil
  then show ?case by simp
next
  case (Cons f fs)
  have f: "succeeds f" using Cons.prems(1) by simp
  obtain r cb1 w1 where c: "call now cb f w = (r, cb1, w1)" by (metis prod_cases3)
  have cb1: "cb1 = on_success cb"
    using call_succeeds_not_open[OF f, of cb now w] Cons.prems(2) c by simp
  show ?case
  proof (cases "fs = []")
    case True
    then have "success_count cb + 1 = success_threshold cb" using Cons.prems(3) by simp
    then have "state (on_success cb) = CLOSED \<and> failure_count (on_success cb) = 0
        \<and> success_count (on_success cb) = 0"
      using Cons.prems(2) by (simp add: on_success_def Let_def)
    then show ?thesis using True c cb1 by simp
  next
    case False
    then have "success_count cb + 1 < success_threshold cb"
      using Cons.prems(3) by (cases fs) auto
    then have s: "state (on_success cb) = HALF_OPEN"
      "success_count (on_success cb) = success_count cb + 1"
      "success_threshold (on_success cb) = success_threshold cb"
      using Cons.prems(2) by (simp_all add: on_success_def Let_def)
    show ?thesis
      using Cons.IH[of "on_success cb" w1] Cons.prems(1,3) s False c cb1 by simp
  qed
qed

lemma half_open_failure:
  assumes "fails f" "state cb = HALF_OPEN"
  shows "state (fst (snd (call now cb f w))) = OPEN"
proof -
  obtain e w' where "f w = (Inl e, w')"
    using assms(1) unfolding fails_def by (metis isl_def prod.collapse)
  then show ?thesis
    using assms(2) by (simp add: call_def check_circuit_def on_failure_def Let_def)
qed

text \<open>
  Claim C4. The state machine of the breaker, for positive thresholds and a clock whose
  readings are not zero (the stamp of the last failure is tested for truthiness, and a
  reading of the Unix clock is not \<open>0.0\<close>):
  \<^enum> from Closed with no failure counted, \<open>failure_threshold\<close> consecutive failed calls
    leave the state Open;
  \<^enum> while Open, a call made before \<open>recovery_timeout\<close> has elapsed since the last failure
    ends with \<open>CircuitBreakerError\<close>, and neither the breaker nor the world changes,
    whatever the guarded function is: it is not run;
  \<^enum> while Open, the call made once \<open>recovery_timeout\<close> has elapsed first moves to
    Half-Open with the success count cleared, and then runs the guarded function once,
    in that state;
  \<^enum> from Half-Open with no success counted, \<open>success_threshold\<close> consecutive successful
    calls leave the state Closed with both counters at zero;
  \<^enum> in Half-Open, a failed call leaves the state Open.
\<close>

theorem circuit_breaker_state_machine:
  fixes now :: "'w \<Rightarrow> real"
    and f :: "'w \<Rightarrow> ('e + 'a) \<times> 'w"
    and fs :: "('w \<Rightarrow> ('e + 'a) \<times> 'w) list"
  shows
    "(state cb = CLOSED \<and> failure_count cb = 0 \<and> 0 < failure_threshold cb
        \<and> (\<forall>g\<in>set fs. fails g) \<and> int (length fs) = failure_threshold cb
      \<longrightarrow> state (fst (calls now cb fs w)) = OPEN)
   \<and> (state cb = OPEN \<and> last_failure_time cb = Some t \<and> t \<noteq> 0
        \<and> now w - t < recovery_timeout cb
      \<longrightarrow> call now cb f w = (Inl CircuitBreakerError, cb, w))
   \<and> (state cb = OPEN \<and> last_failure_time cb = Some t \<and> t \<noteq> 0
        \<and> recovery_timeout cb \<le> now w - t
      \<longrightarrow> call now cb f w =
           (case f w of
              (Inr result, w') \<Rightarrow>
                (Inr result, on_success (cb\<lparr>state := HALF_OPEN, success_count := 0\<rparr>), w')
            | (Inl e, w') \<Rightarrow>
                (Inl (Raised e),
                 on_failure (now w') (cb\<lparr>state := HALF_OPEN, success_count := 0\<rparr>), w')))
   \<and> (state cb = HALF_OPEN \<and> success_count cb = 0 \<and> 0 < success_threshold cb
        \<and> (\<forall>g\<in>set fs. succeeds g) \<and> int (length fs) = success_threshold cb
      \<longrightarrow> state (fst (calls now cb fs w)) = CLOSED
          \<and> failure_count (fst (calls now cb fs w)) = 0
          \<and> success_count (fst (calls now cb fs w)) = 0)
   \<and> (state cb = HALF_OPEN \<and> fails f \<longrightarrow> state (fst (snd (call now cb f w))) = OPEN)"
proof (intro conjI impI)
  assume a: "state cb = CLOSED \<and> failure_count cb = 0 \<and> 0 < failure_threshold cb
        \<and> (\<forall>g\<in>set fs. fails g) \<and> int (length fs) = failure_threshold cb"
  then have "fs \<noteq> []" by auto
  with a show "state (fst (calls now cb fs w)) = OPEN"
    by (intro closed_failures) auto
next
  assume "state cb = OPEN \<and> last_failure_time cb = Some t \<and> t \<noteq> 0
        \<and> now w - t < recovery_timeout cb"
  then show "call now cb f w = (Inl CircuitBreakerError, cb, w)"
    by (intro open_rejects) auto
next
  assume "state cb = OPEN \<and> last_failure_time cb = Some t \<and> t \<noteq> 0
        \<and> recovery_timeout cb \<le> now w - t"
  then show "call now cb f w =
           (case f w of
              (Inr result, w') \<Rightarrow>
                (Inr result, on_success (cb\<lparr>state := HALF_OPEN, success_count := 0\<rparr>), w')
            | (Inl e, w') \<Rightarrow>
                (Inl (Raised e),
                 on_failure (now w') (cb\<lparr>state := HALF_OPEN, success_count := 0\<rparr>), w'))"
    by (intro open_recovers) auto
next
  assume a: "state cb = HALF_OPEN \<and> success_count cb = 0 \<and> 0 < success_threshold cb
        \<and> (\<forall>g\<in>set fs. succeeds g) \<and> int (length fs) = success_threshold cb"
  then have ne: "fs \<noteq> []" by auto
  have h: "state (fst (calls now cb fs w)) = CLOSED
       \<and> failure_count (fst (calls now cb fs w)) = 0
       \<and> success_count (fst (calls now cb fs w)) = 0"
    using a ne by (intro half_open_successes) auto
  show "state (fst (calls now cb fs w)) = CLOSED" using h by simp
  show "failure_count (fst (calls now cb fs w)) = 0" using h by simp
  show "success_count (fst (calls now cb fs w)) = 0" using h by simp
next
  assume "state cb = HALF_OPEN \<and> fails f"
  then show "state (fst (snd (call now cb f w))) = OPEN"
    by (intro half_open_failure) auto
qed

theorem circuit_breaker_state_machine_witness:
  "state (fst (calls (\<lambda>w. w) (breaker_example CLOSED None) [failing_call, failing_call] 100))
     = OPEN
   \<and> call (\<lambda>w. w) (breaker_example OPEN (Some 102)) successful_call 130
     = (Inl CircuitBreakerError, breaker_example OPEN (Some 102), 130)
   \<and> call (\<lambda>w. w) (breaker_example OPEN (Some 102)) successful_call 162
     = (Inr (), (breaker_example HALF_OPEN (Some 102))\<lparr>success_count := 1\<rparr>, 163)
   \<and> fst (calls (\<lambda>w. w) (breaker_example HALF_OPEN (Some 102))
          [successful_call, successful_call] 162)
     = breaker_example CLOSED (Some 102)
   \<and> state (fst (snd (call (\<lambda>w. w) (breaker_example HALF_OPEN (Some 102)) failing_call 162)))
     = OPEN"
proof -
  have ff: "fails failing_call" by (simp add: fails_def failing_call_def)
  have ss: "succeeds successful_call" by (simp add: succeeds_def successful_call_def)
  note a = circuit_breaker_state_machine
    [where cb = "breaker_example CLOSED None" and fs = "[failing_call, failing_call]"
      and t = 102 and now = "\<lambda>w. w" and w = 100 and f = failing_call]
  note b = circuit_breaker_state_machine
    [where cb = "breaker_example OPEN (Some 102)" and fs = "[]"
      and t = 102 and now = "\<lambda>w. w" and w = 130 and f = successful_call]
  note c = circuit_breaker_state_machine
    [where cb = "breaker_example OPEN (Some 102)" and fs = "[]"
      and t = 102 and now = "\<lambda>w. w" and w = 162 and f = successful_call]
  note d = circuit_breaker_state_machine
    [where cb = "breaker_example HALF_OPEN (Some 102)"
      and fs = "[successful_call, successful_call]"
      and t = 102 and now = "\<lambda>w. w" and w = 162 and f = failing_call]
  have 1: "state (fst (calls (\<lambda>w. w) (breaker_example CLOSED None)
      [failing_call, failing_call] 100)) = OPEN"
    using a ff by (simp add: breaker_example_def)
  have 2: "call (\<lambda>w. w) (breaker_example OPEN (Some 102)) successful_call 130
     = (Inl CircuitBreakerError, breaker_example OPEN (Some 102), 130)"
    using b by (simp add: breaker_example_def)
  have 3: "call (\<lambda>w. w) (breaker_example OPEN (Some 102)) successful_call 162
     = (Inr (), (breaker_example HALF_OPEN (Some 102))\<lparr>success_count := 1\<rparr>, 163)"
    using c by (simp add: breaker_example_def successful_call_def on_success_def)
  have 4: "fst (calls (\<lambda>w. w) (breaker_example HALF_OPEN (Some 102))
          [successful_call, successful_call] 162) = breaker_example CLOSED (Some 102)"
    using d ss
    by (simp add: breaker_example_def successful_call_def call_def check_circuit_def
        on_success_def)
  have 5: "state (fst (snd (call (\<lambda>w. w) (breaker_example HALF_OPEN (Some 102))
      failing_call 162))) = OPEN"
    using d ff by (simp add: breaker_example_def)
  show ?thesis using 1 2 3 4 5 by simp
qed

section \<open>Properties of the dependency graph\<close>

lemma wf_graph_lookup:
  assumes "wf_graph g" "n \<in> set (nodes g)"
  shows "graph g n = Some (get_dependents g n)"
    and "reverse_graph g n = Some (get_dependencies g n)"
proof -
  have "n \<in> dom (graph g)" "n \<in> dom (reverse_graph g)"
    using assms by (simp_all add: wf_graph_def)
  then show "graph g n = Some (get_dependents g n)"
    and "reverse_graph g n = Some (get_dependencies g n)"
    by (auto simp: get_dependents_def get_dependencies_def)
qed

lemma wf_graph_lists:
  assumes "wf_graph g"
  shows "distinct (get_dependents g n)" "set (get_dependents g n) \<subseteq> set (nodes g)"
    "distinct (get_dependencies g n)" "set (get_dependencies g n) \<subseteq> set (nodes g)"
proof -
  have 1: "distinct ds \<and> set ds \<subseteq> set (nodes g)" if "graph g n = Some ds" for ds
    using assms that unfolding wf_graph_def by blast
  have 2: "distinct rs \<and> set rs \<subseteq> set (nodes g)" if "reverse_graph g n = Some rs" for rs
    using assms that unfolding wf_graph_def by blast
  show "distinct (get_dependents g n)" "set (get_dependents g n) \<subseteq> set (nodes g)"
    using 1 by (cases "graph g n"; simp add: get_dependents_def)+
  show "distinct (get_dependencies g n)" "set (get_dependencies g n) \<subseteq> set (nodes g)"
    using 2 by (cases "reverse_graph g n"; simp add: get_dependencies_def)+
qed

lemma edges_dependents: "(d, n) \<in> edges g \<longleftrightarrow> n \<in> set (get_dependents g d)"
  by (cases "graph g d") (simp_all add: edges_def get_dependents_def)

lemma edges_dependencies:
  assumes "wf_graph g"
  shows "(d, n) \<in> edges g \<longleftrightarrow> d \<in> set (get_dependencies g n)"
proof -
  have "(\<exists>ds. graph g d = Some ds \<and> n \<in> set ds)
      = (\<exists>rs. reverse_graph g n = Some rs \<and> d \<in> set rs)"
    using assms unfolding wf_graph_def by blast
  then show ?thesis
    by (cases "reverse_graph g n") (simp_all add: edges_def get_dependencies_def)
qed

lemma edges_nodes:
  assumes "wf_graph g" "(d, n) \<in> edges g"
  shows "d \<in> set (nodes g)" "n \<in> set (nodes g)"
proof -
  from assms(2) obtain ds where ds: "graph g d = Some ds" "n \<in> set ds"
    by (auto simp: edges_def)
  then have "d \<in> dom (graph g)" by auto
  then show "d \<in> set (nodes g)" using assms(1) by (simp add: wf_graph_def)
  show "n \<in> set (nodes g)" using assms(1) ds unfolding wf_graph_def by blast
qed

lemma finite_edges: "wf_graph g \<Longrightarrow> finite (edges g)"
  by (rule finite_subset[of _ "set (nodes g) \<times> set (nodes g)"])
    (auto dest: edges_nodes)

lemma in_degree_init_wf:
  assumes "wf_graph g" "set ns \<subseteq> set (nodes g)"
  shows "in_degree_init g ns
      = Inr (map (\<lambda>n. (n, int (length (get_dependencies g n)))) ns)"
  using assms(2)
proof (induction ns)
  case Nil
  then show ?case by simp
next
  case (Cons n ns)
  then have "reverse_graph g n = Some (get_dependencies g n)"
    using wf_graph_lookup(2)[OF assms(1)] by simp
  then show ?case using Cons by simp
qed

lemma map_of_update_other: "k' \<noteq> k \<Longrightarrow> map_of (AList.update k v al) k' = map_of al k'"
  by (simp add: update_conv')

lemma keys_update: "map_of al k = Some v \<Longrightarrow> map fst (AList.update k v' al) = map fst al"
  by (induction al) (auto split: if_splits)

lemma relax_result:
  assumes "distinct ds" "set ds \<subseteq> fst ` set in_degree"
  shows "\<exists>in_degree'. relax ds in_degree queue
        = Inr (in_degree', queue @ filter (\<lambda>d. map_of in_degree d = Some 1) ds)
      \<and> map fst in_degree' = map fst in_degree
      \<and> (\<forall>n. map_of in_degree' n
            = (if n \<in> set ds then map_option (\<lambda>k. k - 1) (map_of in_degree n)
               else map_of in_degree n))"
  using assms
proof (induction ds arbitrary: in_degree queue)
  case Nil
  then show ?case by simp
next
  case (Cons d ds)
  from Cons.prems(2) obtain k where k: "map_of in_degree d = Some k"
    by (metis list.set_intros(1) subsetD weak_map_of_SomeI imageE prod.collapse
        map_of_eq_None_iff not_None_eq)
  let ?deg = "AList.update d (k - 1) in_degree"
  let ?q = "if k - 1 = 0 then queue @ [d] else queue"
  have keys: "map fst ?deg = map fst in_degree" using k by (rule keys_update)
  have other: "map_of ?deg n = map_of in_degree n" if "n \<noteq> d" for n
    using that by (simp add: map_of_update_other)
  have "distinct ds" "set ds \<subseteq> fst ` set ?deg"
    using Cons.prems keys by (auto simp flip: set_map)
  from Cons.IH[OF this, of ?q] obtain deg' where deg':
    "relax ds ?deg ?q = Inr (deg', ?q @ filter (\<lambda>x. map_of ?deg x = Some 1) ds)"
    "map fst deg' = map fst ?deg"
    "\<forall>n. map_of deg' n
        = (if n \<in> set ds then map_option (\<lambda>k. k - 1) (map_of ?deg n) else map_of ?deg n)"
    by blast
  have dnot: "d \<notin> set ds" using Cons.prems(1) by simp
  have f: "filter (\<lambda>x. map_of ?deg x = Some 1) ds = filter (\<lambda>x. map_of in_degree x = Some 1) ds"
  proof (rule filter_cong[OF refl])
    fix x assume "x \<in> set ds"
    then have "x \<noteq> d" using dnot by auto
    then show "(map_of ?deg x = Some 1) = (map_of in_degree x = Some 1)"
      by (simp add: other)
  qed
  have q: "?q @ filter (\<lambda>x. map_of in_degree x = Some 1) ds
      = queue @ filter (\<lambda>x. map_of in_degree x = Some 1) (d # ds)"
    using k by auto
  have "relax (d # ds) in_degree queue
      = Inr (deg', queue @ filter (\<lambda>x. map_of in_degree x = Some 1) (d # ds))"
    using deg'(1) k f q by (simp add: Let_def)
  moreover have "map fst deg' = map fst in_degree" using deg'(2) keys by simp
  moreover have "\<forall>n. map_of deg' n
        = (if n \<in> set (d # ds) then map_option (\<lambda>k. k - 1) (map_of in_degree n)
           else map_of in_degree n)"
  proof
    fix n
    show "map_of deg' n
        = (if n \<in> set (d # ds) then map_option (\<lambda>k. k - 1) (map_of in_degree n)
           else map_of in_degree n)"
    proof (cases "n = d")
      case True
      then have "map_of deg' n = map_of ?deg d" using deg'(3) dnot by simp
      also have "\<dots> = Some (k - 1)" by (simp add: update_conv')
      finally show ?thesis using True k by simp
    next
      case False
      then show ?thesis using deg'(3) other by simp
    qed
  qed
  ultimately show ?case by blast
qed

lemma filter_remove_member:
  assumes "distinct xs" "x \<in> set xs" "P x"
  shows "Suc (length (filter (\<lambda>d. P d \<and> d \<noteq> x) xs)) = length (filter P xs)"
  using assms
proof (induction xs)
  case Nil
  then show ?case by simp
next
  case (Cons a xs)
  show ?case
  proof (cases "a = x")
    case True
    then have "x \<notin> set xs" using Cons.prems(1) by simp
    then have "filter (\<lambda>d. P d \<and> d \<noteq> x) xs = filter P xs"
      by (intro filter_cong) auto
    then show ?thesis using True Cons.prems(3) by simp
  next
    case False
    then have "x \<in> set xs" using Cons.prems(2) by simp
    then have "Suc (length (filter (\<lambda>d. P d \<and> d \<noteq> x) xs)) = length (filter P xs)"
      using Cons.IH Cons.prems(1,3) by simp
    then show ?thesis using False by simp
  qed
qed

lemma filter_remove_absent:
  "x \<notin> set xs \<Longrightarrow> filter (\<lambda>d. P d \<and> d \<noteq> x) xs = filter P xs"
  by (intro filter_cong) auto

lemma filter_empty_subset: "(filter (\<lambda>d. d \<notin> A) xs = []) = (set xs \<subseteq> A)"
proof -
  have "(filter (\<lambda>d. d \<notin> A) xs = []) = (\<forall>d \<in> set xs. d \<in> A)"
    by (simp add: filter_empty_conv)
  then show ?thesis by blast
qed

lemma singleton_filter:
  assumes "distinct xs" "x \<in> set xs" "x \<notin> A"
  shows "(length (filter (\<lambda>d. d \<notin> A) xs) = 1) = (set xs \<subseteq> insert x A)"
proof -
  let ?F = "filter (\<lambda>d. d \<notin> A) xs" and ?F' = "filter (\<lambda>d. d \<notin> A \<and> d \<noteq> x) xs"
  have "Suc (length ?F') = length ?F"
    using assms by (intro filter_remove_member) auto
  then have "(length ?F = 1) = (?F' = [])" by auto
  also have "\<dots> = (\<forall>d \<in> set xs. d \<in> A \<or> d = x)"
    by (simp add: filter_empty_conv)
  also have "\<dots> = (set xs \<subseteq> insert x A)" by blast
  finally show ?thesis .
qed

lemma dependency_order_snoc:
  assumes "dependency_order g xs" "set (get_dependencies g x) \<subseteq> set xs"
  shows "dependency_order g (xs @ [x])"
  unfolding dependency_order_def
proof (intro allI impI)
  fix i assume i: "i < length (xs @ [x])"
  show "set (get_dependencies g ((xs @ [x]) ! i)) \<subseteq> set (take i (xs @ [x]))"
  proof (cases "i < length xs")
    case True
    then show ?thesis using assms(1) by (simp add: dependency_order_def nth_append)
  next
    case False
    then have "i = length xs" using i by simp
    then show ?thesis using assms(2) by simp
  qed
qed

lemma kahn_step:
  assumes wf: "wf_graph g" and inv: "kahn_inv g (node # queue) ordered in_degree"
  shows "\<exists>in_degree' queue'.
      relax (get_dependents g node) in_degree queue = Inr (in_degree', queue')
      \<and> kahn_inv g queue' (ordered @ [node]) in_degree'"
proof -
  let ?ds = "get_dependents g node"
  let ?new = "filter (\<lambda>d. map_of in_degree d = Some 1) ?ds"
  let ?U = "\<lambda>n. filter (\<lambda>d. d \<notin> set ordered) (get_dependencies g n)"
  let ?U' = "\<lambda>n. filter (\<lambda>d. d \<notin> set (ordered @ [node])) (get_dependencies g n)"
  have dist: "distinct (ordered @ node # queue)"
    and sub: "set (ordered @ node # queue) \<subseteq> set (nodes g)"
    and keys: "map fst in_degree = nodes g"
    and deg: "\<And>n. n \<in> set (nodes g) \<Longrightarrow> map_of in_degree n = Some (int (length (?U n)))"
    and mem: "\<And>n. n \<in> set (nodes g) \<Longrightarrow>
        (n \<in> set (ordered @ node # queue)) = (set (get_dependencies g n) \<subseteq> set ordered)"
    and ord: "dependency_order g ordered"
    using inv by (simp_all add: kahn_inv_def)
  have node: "node \<in> set (nodes g)" "node \<notin> set ordered" using dist sub by auto
  have ds: "distinct ?ds" "set ?ds \<subseteq> set (nodes g)" using wf_graph_lists[OF wf] by blast+
  have "set ?ds \<subseteq> fst ` set in_degree" using ds(2) keys by (metis set_map)
  from relax_result[OF ds(1) this, of queue] obtain deg' where deg':
    "relax ?ds in_degree queue = Inr (deg', queue @ ?new)"
    "map fst deg' = map fst in_degree"
    "\<And>n. map_of deg' n = (if n \<in> set ?ds then map_option (\<lambda>k. k - 1) (map_of in_degree n)
           else map_of in_degree n)"
    by blast
  have dep_iff: "(node \<in> set (get_dependencies g n)) = (n \<in> set ?ds)" for n
    using edges_dependencies[OF wf, of node n] edges_dependents[of node n g] by simp
  have U'_eq: "?U' n = filter (\<lambda>d. d \<notin> set ordered \<and> d \<noteq> node) (get_dependencies g n)" for n
    by (intro filter_cong) auto
  have cnt_in: "Suc (length (?U' n)) = length (?U n)" if "n \<in> set ?ds" for n
  proof -
    have "node \<in> set (get_dependencies g n)" using that dep_iff by simp
    then show ?thesis
      unfolding U'_eq using wf_graph_lists(3)[OF wf] node(2)
      by (intro filter_remove_member) auto
  qed
  have cnt_out: "?U' n = ?U n" if "n \<notin> set ?ds" for n
  proof -
    have "node \<notin> set (get_dependencies g n)" using that dep_iff by simp
    then show ?thesis unfolding U'_eq by (rule filter_remove_absent)
  qed
  have one_iff: "(map_of in_degree n = Some 1)
      = (set (get_dependencies g n) \<subseteq> insert node (set ordered))"
    if "n \<in> set ?ds" for n
  proof -
    have n: "n \<in> set (nodes g)" using that ds(2) by auto
    have "node \<in> set (get_dependencies g n)" using that dep_iff by simp
    then have "(length (?U n) = 1) = (set (get_dependencies g n) \<subseteq> insert node (set ordered))"
      using wf_graph_lists(3)[OF wf] node(2) by (intro singleton_filter) auto
    then show ?thesis using deg[OF n] by simp
  qed
  have new_fresh: "n \<notin> set (ordered @ node # queue)" if "n \<in> set ?new" for n
  proof -
    have n: "n \<in> set ?ds" "map_of in_degree n = Some 1" using that by auto
    then have "n \<in> set (nodes g)" using ds(2) by auto
    moreover have "length (?U n) = 1" using deg[OF calculation] n(2) by simp
    then have "?U n \<noteq> []" by auto
    then have "\<not> set (get_dependencies g n) \<subseteq> set ordered"
      by (simp add: filter_empty_subset)
    ultimately show ?thesis using mem by simp
  qed
  have 1: "distinct ((ordered @ [node]) @ queue @ ?new)"
    using dist ds(1) new_fresh by auto
  have 2: "set ((ordered @ [node]) @ queue @ ?new) \<subseteq> set (nodes g)"
    using sub ds(2) by auto
  have 3: "map fst deg' = nodes g" using deg'(2) keys by simp
  have 4: "map_of deg' n = Some (int (length (?U' n)))" if "n \<in> set (nodes g)" for n
  proof (cases "n \<in> set ?ds")
    case True
    then have "map_of deg' n = Some (int (length (?U n)) - 1)"
      using deg'(3)[of n] deg[OF that] by simp
    then show ?thesis using cnt_in[OF True] by (simp flip: of_nat_Suc add: algebra_simps)
  next
    case False
    then show ?thesis using deg'(3)[of n] deg[OF that] cnt_out[OF False] by simp
  qed
  have 5: "(n \<in> set ((ordered @ [node]) @ queue @ ?new))
      = (set (get_dependencies g n) \<subseteq> set (ordered @ [node]))" if "n \<in> set (nodes g)" for n
  proof (cases "n \<in> set ?ds")
    case True
    have "(n \<in> set ((ordered @ [node]) @ queue @ ?new))
        = (n \<in> set (ordered @ node # queue) \<or> map_of in_degree n = Some 1)"
      using True by auto
    also have "\<dots> = (set (get_dependencies g n) \<subseteq> set ordered
         \<or> set (get_dependencies g n) \<subseteq> insert node (set ordered))"
      using mem[OF that] one_iff[OF True] by simp
    also have "\<dots> = (set (get_dependencies g n) \<subseteq> set (ordered @ [node]))" by auto
    finally show ?thesis .
  next
    case False
    then have "node \<notin> set (get_dependencies g n)" using dep_iff by simp
    then have "(set (get_dependencies g n) \<subseteq> set (ordered @ [node]))
        = (set (get_dependencies g n) \<subseteq> set ordered)" by auto
    moreover have "(n \<in> set ((ordered @ [node]) @ queue @ ?new))
        = (n \<in> set (ordered @ node # queue))" using False by auto
    ultimately show ?thesis using mem[OF that] by simp
  qed
  have "set (get_dependencies g node) \<subseteq> set ordered" using mem[OF node(1)] by simp
  then have 6: "dependency_order g (ordered @ [node])"
    using ord by (intro dependency_order_snoc)
  have "kahn_inv g (queue @ ?new) (ordered @ [node]) deg'"
    unfolding kahn_inv_def
  proof (intro conjI ballI)
    show "distinct ((ordered @ [node]) @ queue @ ?new)" by (rule 1)
    show "set ((ordered @ [node]) @ queue @ ?new) \<subseteq> set (nodes g)" by (rule 2)
    show "map fst deg' = nodes g" by (rule 3)
    show "dependency_order g (ordered @ [node])" by (rule 6)
  next
    fix n assume "n \<in> set (nodes g)"
    then show "map_of deg' n = Some (int (length (?U' n)))" by (rule 4)
  next
    fix n assume "n \<in> set (nodes g)"
    then show "(n \<in> set ((ordered @ [node]) @ queue @ ?new))
      = (set (get_dependencies g n) \<subseteq> set (ordered @ [node]))" by (rule 5)
  qed
  then show ?thesis using deg'(1) by blast
qed

lemma kahn_loop_inv:
  "wf_graph g \<Longrightarrow> kahn_inv g queue ordered in_degree \<Longrightarrow>
     \<exists>ordered' in_degree'. kahn_loop g queue ordered in_degree = Inr (ordered', in_degree')
        \<and> kahn_inv g [] ordered' in_degree'"
proof (induction g queue ordered in_degree rule: kahn_loop.induct)
  case (1 g ordered in_degree)
  then show ?case by simp
next
  case (2 g node queue ordered in_degree)
  have wf: "wf_graph g" using "2.prems"(1) .
  have "node \<in> set (nodes g)" using "2.prems"(2) by (simp add: kahn_inv_def)
  then have lk: "graph g node = Some (get_dependents g node)"
    using wf_graph_lookup(1)[OF wf] by simp
  from kahn_step[OF wf "2.prems"(2)] obtain deg' queue' where st:
    "relax (get_dependents g node) in_degree queue = Inr (deg', queue')"
    "kahn_inv g queue' (ordered @ [node]) deg'"
    by blast
  from "2.IH"[OF lk st(1) refl wf st(2)] show ?case using lk st(1) by simp
qed

lemma kahn_init:
  assumes wf: "wf_graph g"
  defines "deg \<equiv> map (\<lambda>n. (n, int (length (get_dependencies g n)))) (nodes g)"
  shows "in_degree_init g (nodes g) = Inr deg"
    and "kahn_inv g (filter (\<lambda>node. map_of deg node = Some 0) (nodes g)) [] deg"
proof -
  show "in_degree_init g (nodes g) = Inr deg"
    unfolding deg_def using wf by (intro in_degree_init_wf) auto
  have look: "map_of deg n = Some (int (length (get_dependencies g n)))"
    if "n \<in> set (nodes g)" for n
    unfolding deg_def using that by (induction "nodes g") (auto simp: map_of_map_restrict)
  have "distinct (nodes g)" using wf by (simp add: wf_graph_def)
  moreover have "map fst deg = nodes g" by (simp add: deg_def comp_def)
  moreover have "(n \<in> set (filter (\<lambda>node. map_of deg node = Some 0) (nodes g)))
      = (set (get_dependencies g n) \<subseteq> {})" if "n \<in> set (nodes g)" for n
    using that look[OF that] by simp
  ultimately show "kahn_inv g (filter (\<lambda>node. map_of deg node = Some 0) (nodes g)) [] deg"
    unfolding kahn_inv_def using look by (simp add: dependency_order_def)
qed

text \<open>What the invariant gives when the queue is empty.\<close>

lemma kahn_final_remaining:
  assumes "kahn_inv g [] ordered in_degree"
  shows "filter (\<lambda>node. case map_of in_degree node of None \<Rightarrow> False | Some k \<Rightarrow> 0 < k) (nodes g)
      = filter (\<lambda>n. n \<notin> set ordered) (nodes g)"
proof (rule filter_cong[OF refl])
  fix n assume n: "n \<in> set (nodes g)"
  let ?U = "filter (\<lambda>d. d \<notin> set ordered) (get_dependencies g n)"
  have "map_of in_degree n = Some (int (length ?U))"
    using assms n by (simp add: kahn_inv_def)
  moreover have "(n \<in> set ordered) = (set (get_dependencies g n) \<subseteq> set ordered)"
    using assms n by (simp add: kahn_inv_def)
  moreover have "(?U = []) = (set (get_dependencies g n) \<subseteq> set ordered)"
    by (rule filter_empty_subset)
  ultimately show "(case map_of in_degree n of None \<Rightarrow> False | Some k \<Rightarrow> 0 < k)
      = (n \<notin> set ordered)" by auto
qed

text \<open>A node that is left has a dependency that is left.\<close>

lemma kahn_final_stuck:
  assumes wf: "wf_graph g" and inv: "kahn_inv g [] ordered in_degree"
    and n: "n \<in> set (nodes g)" "n \<notin> set ordered"
  shows "\<exists>d \<in> set (get_dependencies g n). d \<in> set (nodes g) \<and> d \<notin> set ordered"
proof -
  have "\<not> set (get_dependencies g n) \<subseteq> set ordered"
    using inv n by (simp add: kahn_inv_def)
  then obtain d where "d \<in> set (get_dependencies g n)" "d \<notin> set ordered" by blast
  moreover have "d \<in> set (nodes g)" using wf_graph_lists(4)[OF wf] calculation(1) by blast
  ultimately show ?thesis by blast
qed

lemma kahn_final_acyclic:
  assumes wf: "wf_graph g" and inv: "kahn_inv g [] ordered in_degree"
    and ac: "acyclic (edges g)"
  shows "set ordered = set (nodes g)"
proof (rule ccontr)
  assume ne: "set ordered \<noteq> set (nodes g)"
  have sub: "set ordered \<subseteq> set (nodes g)" using inv by (simp add: kahn_inv_def)
  let ?Q = "set (nodes g) - set ordered"
  from ne sub obtain x where x: "x \<in> ?Q" by blast
  have "wf (edges g)" using finite_edges[OF wf] ac by (rule finite_acyclic_wf)
  from wfE_min[OF this x] obtain z where z: "z \<in> ?Q" "\<And>y. (y, z) \<in> edges g \<Longrightarrow> y \<notin> ?Q"
    by blast
  from kahn_final_stuck[OF wf inv] z(1) obtain d where
    d: "d \<in> set (get_dependencies g z)" "d \<in> set (nodes g)" "d \<notin> set ordered"
    by blast
  have "(d, z) \<in> edges g" using d(1) edges_dependencies[OF wf] by simp
  from z(2)[OF this] show False using d(2,3) by simp
qed

text \<open>In a dependency order without repetition, every edge leads forward.\<close>

lemma dependency_order_precedes:
  assumes wf: "wf_graph g" and ord: "dependency_order g xs"
    and e: "(d, n) \<in> edges g" and n: "n \<in> set xs"
  shows "precedes xs d n"
proof -
  from n obtain j where j: "j < length xs" "xs ! j = n" by (auto simp: in_set_conv_nth)
  have "d \<in> set (get_dependencies g n)" using e edges_dependencies[OF wf] by simp
  then have "d \<in> set (take j xs)" using ord j by (auto simp: dependency_order_def)
  then obtain i where "i < length (take j xs)" "take j xs ! i = d"
    by (auto simp: in_set_conv_nth)
  then have "i < j" "xs ! i = d" by simp_all
  then show ?thesis using j unfolding precedes_def by blast
qed

lemma precedes_acyclic:
  assumes "distinct xs" "\<And>a b. (a, b) \<in> r \<Longrightarrow> precedes xs a b"
  shows "acyclic r"
proof -
  have tr: "precedes xs a b" if "(a, b) \<in> r\<^sup>+" for a b
    using that
  proof (induction rule: trancl.induct)
    case (r_into_trancl a b)
    then show ?case using assms(2) by simp
  next
    case (trancl_into_trancl a b c)
    from trancl_into_trancl.IH obtain i j where 1: "i < j" "j < length xs" "xs ! i = a" "xs ! j = b"
      unfolding precedes_def by blast
    from assms(2)[OF trancl_into_trancl.hyps(2)] obtain j' k where
      2: "j' < k" "k < length xs" "xs ! j' = b" "xs ! k = c"
      unfolding precedes_def by blast
    have "j' < length xs" using 2 by simp
    then have "j' = j" using 1 2 assms(1) nth_eq_iff_index_eq[of xs j' j] by simp
    then show ?case using 1 2 unfolding precedes_def by (metis less_trans)
  qed
  show ?thesis
  proof (rule acyclicI, rule allI, rule notI)
    fix x assume "(x, x) \<in> r\<^sup>+"
    from tr[OF this] obtain i j where "i < j" "j < length xs" "xs ! i = x" "xs ! j = x"
      unfolding precedes_def by blast
    then show False using assms(1) nth_eq_iff_index_eq[of xs i j] by simp
  qed
qed

lemma index_of_member:
  "x \<in> set xs \<Longrightarrow> \<exists>k. index_of xs x = Some k \<and> k < length xs \<and> xs ! k = x"
proof (induction xs)
  case Nil
  then show ?case by simp
next
  case (Cons y ys)
  show ?case
  proof (cases "y = x")
    case True
    then show ?thesis by simp
  next
    case False
    then have "x \<in> set ys" using Cons.prems by simp
    from Cons.IH[OF this] obtain k where "index_of ys x = Some k" "k < length ys" "ys ! k = x"
      by blast
    then show ?thesis using False by simp
  qed
qed

lemma dependency_walk_reach:
  assumes "dependency_walk g p" "i < length p" "j \<le> i"
  shows "(p ! i, p ! j) \<in> (edges g)\<^sup>*"
  using assms(3,2)
proof (induction i rule: dec_induct)
  case base
  then show ?case by simp
next
  case (step n)
  have "(p ! Suc n, p ! n) \<in> edges g" using assms(1) step.prems by (simp add: dependency_walk_def)
  moreover have "(p ! n, p ! j) \<in> (edges g)\<^sup>*" using step by simp
  ultimately show ?case by (rule converse_rtrancl_into_rtrancl)
qed

lemma dependency_walk_snoc:
  assumes "dependency_walk g p" "p \<noteq> []" "(x, last p) \<in> edges g"
  shows "dependency_walk g (p @ [x])"
  unfolding dependency_walk_def
proof (intro allI impI)
  fix i assume i: "Suc i < length (p @ [x])"
  show "((p @ [x]) ! Suc i, (p @ [x]) ! i) \<in> edges g"
  proof (cases "Suc i < length p")
    case True
    then show ?thesis using assms(1) by (simp add: dependency_walk_def nth_append)
  next
    case False
    then have l: "Suc i = length p" using i by simp
    then have "i = length p - 1" by simp
    then have "p ! i = last p" using assms(2) by (simp add: last_conv_nth)
    then have "(p @ [x]) ! Suc i = x" "(p @ [x]) ! i = last p"
      using l by (simp_all add: nth_append)
    then show ?thesis using assms(3) by simp
  qed
qed

text \<open>
  Closing a walk: when a dependency of the last element is the element at index \<open>k\<close>, the
  elements from \<open>k\<close> on lie on one cycle.
\<close>

lemma dependency_walk_cycle:
  assumes w: "dependency_walk g p" and k: "k < length p"
    and close: "(p ! k, last p) \<in> edges g"
    and x: "x \<in> set (drop k p @ [p ! k])" and y: "y \<in> set (drop k p @ [p ! k])"
  shows "(x, y) \<in> (edges g)\<^sup>+"
proof -
  have ne: "p \<noteq> []" using k by auto
  have s: "\<exists>i. z = p ! i \<and> k \<le> i \<and> i < length p" if "z \<in> set (drop k p @ [p ! k])" for z
  proof (cases "z = p ! k")
    case True
    then show ?thesis using k by blast
  next
    case False
    then have "z \<in> set (drop k p)" using that by simp
    then obtain i' where i': "i' < length (drop k p)" "drop k p ! i' = z"
      by (auto simp: in_set_conv_nth)
    then have "z = p ! (k + i')" "k + i' < length p" by auto
    then show ?thesis by (intro exI[of _ "k + i'"]) simp
  qed
  from s[OF x] obtain i where i: "x = p ! i" "k \<le> i" "i < length p" by blast
  from s[OF y] obtain j where j: "y = p ! j" "k \<le> j" "j < length p" by blast
  have 1: "(p ! i, p ! k) \<in> (edges g)\<^sup>*" using dependency_walk_reach[OF w i(3) i(2)] .
  have "last p = p ! (length p - 1)" using ne by (rule last_conv_nth)
  moreover have "(p ! (length p - 1), p ! j) \<in> (edges g)\<^sup>*"
    using j(3) ne by (intro dependency_walk_reach[OF w]) auto
  ultimately have 2: "(last p, p ! j) \<in> (edges g)\<^sup>*" by simp
  have "(p ! i, last p) \<in> (edges g)\<^sup>+" using 1 close by (rule rtrancl_into_trancl1)
  then have "(p ! i, p ! j) \<in> (edges g)\<^sup>+" using 2 by (rule trancl_rtrancl_trancl)
  then show ?thesis using i(1) j(1) by simp
qed

lemma find_cycle_walk_cycle:
  "wf_graph g \<Longrightarrow> stuck_nodes g ns \<Longrightarrow> walk_inv g ns p visited current \<Longrightarrow>
     \<exists>c. find_cycle_walk g ns p visited current = Inr c \<and> c \<noteq> []
       \<and> (\<forall>x \<in> set c. \<forall>y \<in> set c. (x, y) \<in> (edges g)\<^sup>+)"
proof (induction g ns p visited current rule: find_cycle_walk.induct)
  case (1 g ns p visited current)
  have wf: "wf_graph g" and stuck: "stuck_nodes g ns" using "1.prems"(1,2) .
  have inv: "p \<noteq> []" "last p = current" "visited = set p" "distinct p" "set p \<subseteq> set ns"
    "dependency_walk g p"
    using "1.prems"(3) by (simp_all add: walk_inv_def)
  have cur: "current \<in> set ns" using inv(1,2,5) last_in_set by blast
  let ?deps = "get_dependencies g current"
  have lk: "reverse_graph g current = Some ?deps"
    using stuck cur by (simp add: stuck_nodes_def)
  obtain d where "d \<in> set ?deps" "d \<in> set ns"
    using stuck cur unfolding stuck_nodes_def by blast
  then have "filter (\<lambda>dep. dep \<in> set ns) ?deps \<noteq> []" by (auto simp: filter_empty_conv)
  then obtain nxt rest where f: "filter (\<lambda>dep. dep \<in> set ns) ?deps = nxt # rest"
    by (cases "filter (\<lambda>dep. dep \<in> set ns) ?deps") auto
  then have "nxt \<in> set (filter (\<lambda>dep. dep \<in> set ns) ?deps)" by simp
  then have nxt: "nxt \<in> set ?deps" "nxt \<in> set ns" by auto
  have edge: "(nxt, last p) \<in> edges g"
    using nxt(1) inv(2) edges_dependencies[OF wf] by simp
  show ?case
  proof (cases "nxt \<in> visited")
    case True
    then have "nxt \<in> set p" using inv(3) by simp
    from index_of_member[OF this] obtain k where
      k: "index_of p nxt = Some k" "k < length p" "p ! k = nxt"
      by blast
    have res: "find_cycle_walk g ns p visited current = Inr (drop k p @ [p ! k])"
      using lk f True k by (subst find_cycle_walk.simps) simp
    have "(x, y) \<in> (edges g)\<^sup>+"
      if "x \<in> set (drop k p @ [p ! k])" "y \<in> set (drop k p @ [p ! k])" for x y
      using dependency_walk_cycle[OF inv(6) k(2) _ that] edge k(3) by simp
    then show ?thesis using res by auto
  next
    case False
    let ?p = "p @ [nxt]"
    have d: "distinct ?p" using inv(3,4) False by simp
    have s: "set ?p \<subseteq> set ns" using inv(5) nxt(2) by simp
    have "length ?p = card (set ?p)" using d by (simp only: distinct_card)
    also have "\<dots> \<le> card (set ns)" using s by (intro card_mono) auto
    also have "\<dots> \<le> length ns" by (rule card_length)
    finally have len: "\<not> length ns * 2 < length ?p" by simp
    have "walk_inv g ns ?p (insert nxt visited) nxt"
      unfolding walk_inv_def using d s inv(3) dependency_walk_snoc[OF inv(6,1) edge] by simp
    from "1.IH"(2)[OF lk f False len wf stuck this]
    obtain c where c: "find_cycle_walk g ns ?p (insert nxt visited) nxt = Inr c" "c \<noteq> []"
      "\<forall>x \<in> set c. \<forall>y \<in> set c. (x, y) \<in> (edges g)\<^sup>+"
      by blast
    have "find_cycle_walk g ns p visited current
        = find_cycle_walk g ns ?p (insert nxt visited) nxt"
      using lk f False len by (subst find_cycle_walk.simps) simp
    then show ?thesis using c by simp
  qed
qed

lemma find_cycle_path_cycle:
  assumes "wf_graph g" "stuck_nodes g ns" "ns \<noteq> []"
  shows "\<exists>c. find_cycle_path g ns = Inr c \<and> c \<noteq> []
       \<and> (\<forall>x \<in> set c. \<forall>y \<in> set c. (x, y) \<in> (edges g)\<^sup>+)"
proof -
  obtain start rest where ns: "ns = start # rest" using assms(3) by (cases ns) auto
  have "walk_inv g ns [start] {start} start"
    by (simp add: walk_inv_def ns dependency_walk_def)
  from find_cycle_walk_cycle[OF assms(1,2) this] show ?thesis
    by (simp add: find_cycle_path_def ns)
qed

text \<open>What \<open>get_ordered_resources\<close> returns on a well-formed graph.\<close>

lemma get_ordered_resources_wf:
  assumes wf: "wf_graph g"
  shows "\<exists>ordered in_degree. kahn_inv g [] ordered in_degree
      \<and> get_ordered_resources g =
          (if set ordered = set (nodes g) then Inr ordered
           else (case find_cycle_path g (filter (\<lambda>n. n \<notin> set ordered) (nodes g)) of
                   Inl e \<Rightarrow> Inl e
                 | Inr cycle_path \<Rightarrow> Inl (CyclicDependencyError cycle_path)))"
proof -
  let ?deg = "map (\<lambda>n. (n, int (length (get_dependencies g n)))) (nodes g)"
  let ?q = "filter (\<lambda>node. map_of ?deg node = Some 0) (nodes g)"
  note init = kahn_init[OF wf]
  from kahn_loop_inv[OF wf init(2)] obtain ordered deg' where
    k: "kahn_loop g ?q [] ?deg = Inr (ordered, deg')" "kahn_inv g [] ordered deg'"
    by blast
  let ?rem = "filter (\<lambda>n. n \<notin> set ordered) (nodes g)"
  have rem: "filter (\<lambda>node. case map_of deg' node of None \<Rightarrow> False | Some k \<Rightarrow> 0 < k) (nodes g)
      = ?rem"
    using k(2) by (rule kahn_final_remaining)
  have "set ordered \<subseteq> set (nodes g)" using k(2) by (simp add: kahn_inv_def)
  then have "(?rem = []) = (set ordered = set (nodes g))"
    by (auto simp: filter_empty_conv)
  then have "get_ordered_resources g =
          (if set ordered = set (nodes g) then Inr ordered
           else (case find_cycle_path g ?rem of
                   Inl e \<Rightarrow> Inl e
                 | Inr cycle_path \<Rightarrow> Inl (CyclicDependencyError cycle_path)))"
    using init(1) k(1) rem by (simp add: get_ordered_resources_def Let_def)
  then show ?thesis using k(2) by blast
qed

lemma stuck_remaining:
  assumes wf: "wf_graph g" and inv: "kahn_inv g [] ordered in_degree"
  shows "stuck_nodes g (filter (\<lambda>n. n \<notin> set ordered) (nodes g))"
  unfolding stuck_nodes_def
proof (intro ballI conjI)
  fix n assume "n \<in> set (filter (\<lambda>n. n \<notin> set ordered) (nodes g))"
  then have n: "n \<in> set (nodes g)" "n \<notin> set ordered" by auto
  show "reverse_graph g n = Some (get_dependencies g n)"
    using wf_graph_lookup(2)[OF wf n(1)] .
  from kahn_final_stuck[OF wf inv n]
  show "\<exists>d \<in> set (get_dependencies g n). d \<in> set (filter (\<lambda>n. n \<notin> set ordered) (nodes g))"
    by auto
qed

text \<open>
  The two outcomes on a well-formed graph: an order of all nodes, each once, in
  dependency order, when the graph has no cycle; otherwise the error, with a path whose
  nodes lie on one cycle.
\<close>

lemma get_ordered_resources_cases:
  assumes wf: "wf_graph g"
  obtains (order) ordered where "acyclic (edges g)" "get_ordered_resources g = Inr ordered"
      "distinct ordered" "set ordered = set (nodes g)" "dependency_order g ordered"
    | (cycle) c where "\<not> acyclic (edges g)"
      "get_ordered_resources g = Inl (CyclicDependencyError c)" "c \<noteq> []"
      "\<forall>x \<in> set c. \<forall>y \<in> set c. (x, y) \<in> (edges g)\<^sup>+"
proof -
  from get_ordered_resources_wf[OF wf] obtain ordered deg where
    inv: "kahn_inv g [] ordered deg"
    and res: "get_ordered_resources g =
          (if set ordered = set (nodes g) then Inr ordered
           else (case find_cycle_path g (filter (\<lambda>n. n \<notin> set ordered) (nodes g)) of
                   Inl e \<Rightarrow> Inl e
                 | Inr cycle_path \<Rightarrow> Inl (CyclicDependencyError cycle_path)))"
    by blast
  have d: "distinct ordered" "dependency_order g ordered" "set ordered \<subseteq> set (nodes g)"
    using inv by (simp_all add: kahn_inv_def)
  show thesis
  proof (cases "set ordered = set (nodes g)")
    case True
    have "precedes ordered a b" if "(a, b) \<in> edges g" for a b
      using dependency_order_precedes[OF wf d(2) that] edges_nodes(2)[OF wf that] True by simp
    then have "acyclic (edges g)" using d(1) by (intro precedes_acyclic[of ordered]) auto
    moreover have "get_ordered_resources g = Inr ordered" using res True by simp
    ultimately show thesis using d(1,2) True by (intro order)
  next
    case False
    then have nac: "\<not> acyclic (edges g)" using kahn_final_acyclic[OF wf inv] by blast
    let ?rem = "filter (\<lambda>n. n \<notin> set ordered) (nodes g)"
    have "?rem \<noteq> []" using False d(3) by (auto simp: filter_empty_conv)
    from find_cycle_path_cycle[OF wf stuck_remaining[OF wf inv] this]
    obtain c where c: "find_cycle_path g ?rem = Inr c" "c \<noteq> []"
      "\<forall>x \<in> set c. \<forall>y \<in> set c. (x, y) \<in> (edges g)\<^sup>+"
      by blast
    have "get_ordered_resources g = Inl (CyclicDependencyError c)" using res False c(1) by simp
    with nac show thesis using c(2,3) by (intro cycle)
  qed
qed

lemma precedes_append:
  assumes "a \<in> set xs" "b \<in> set ys"
  shows "precedes (xs @ ys) a b"
proof -
  from assms(1) obtain i where i: "i < length xs" "xs ! i = a" by (auto simp: in_set_conv_nth)
  from assms(2) obtain j where j: "j < length ys" "ys ! j = b" by (auto simp: in_set_conv_nth)
  have "i < length xs + j" "length xs + j < length (xs @ ys)"
    "(xs @ ys) ! i = a" "(xs @ ys) ! (length xs + j) = b"
    using i j by (simp_all add: nth_append)
  then show ?thesis unfolding precedes_def by blast
qed

lemma earlier_batch_precedes:
  assumes "earlier_batch bs a b"
  shows "precedes (concat bs) a b"
proof -
  from assms obtain i j where ij: "i < j" "j < length bs" "a \<in> set (bs ! i)" "b \<in> set (bs ! j)"
    unfolding earlier_batch_def by blast
  have "bs = take j bs @ drop j bs" by simp
  then have c: "concat bs = concat (take j bs) @ concat (drop j bs)"
    by (metis concat_append)
  have "bs ! i \<in> set (take j bs)" using ij(1,2) by (auto simp: in_set_conv_nth intro!: exI[of _ i])
  then have a: "a \<in> set (concat (take j bs))" using ij(3) by auto
  have "bs ! j \<in> set (drop j bs)" using ij(2) by (metis Cons_nth_drop_Suc list.set_intros(1))
  then have b: "b \<in> set (concat (drop j bs))" using ij(4) by auto
  show ?thesis unfolding c using a b by (rule precedes_append)
qed

text \<open>
  While a resource of the order is not deployed, the first such resource goes into the
  next batch: its dependencies stand before it in the order.
\<close>

lemma next_batch_nonempty:
  assumes ord: "dependency_order g ordered"
    and x: "x \<in> set ordered" "x \<notin> deployed"
  shows "next_batch g ordered deployed \<noteq> []"
proof -
  let ?P = "\<lambda>i. i < length ordered \<and> ordered ! i \<notin> deployed"
  from x obtain i0 where "?P i0" by (auto simp: in_set_conv_nth)
  then have L: "?P (LEAST i. ?P i)" by (rule LeastI)
  let ?i = "LEAST i. ?P i"
  have before: "ordered ! k \<in> deployed" if "k < ?i" for k
  proof -
    have "\<not> ?P k" using that by (rule not_less_Least)
    moreover have "k < length ordered" using that L by simp
    ultimately show ?thesis by simp
  qed
  have "set (take ?i ordered) \<subseteq> deployed"
  proof
    fix y assume "y \<in> set (take ?i ordered)"
    then obtain k where "k < length (take ?i ordered)" "take ?i ordered ! k = y"
      by (auto simp: in_set_conv_nth)
    then have "k < ?i" "ordered ! k = y" by simp_all
    then show "y \<in> deployed" using before by blast
  qed
  moreover have "set (get_dependencies g (ordered ! ?i)) \<subseteq> set (take ?i ordered)"
    using ord L by (simp add: dependency_order_def)
  ultimately have "list_all (\<lambda>dep. dep \<in> deployed) (get_dependencies g (ordered ! ?i))"
    by (auto simp: list_all_iff)
  then have "ordered ! ?i \<in> set (next_batch g ordered deployed)"
    using L by (simp add: next_batch_def)
  then show ?thesis by auto
qed

lemma batch_inv_step:
  assumes d: "distinct ordered" and inv: "batch_inv g ordered batches deployed"
    and b: "batch = next_batch g ordered deployed" and ne: "batch \<noteq> []"
  shows "batch_inv g ordered (batches @ [batch]) (deployed \<union> set batch)"
proof -
  have i: "deployed = set (concat batches)" "distinct (concat batches)"
    "deployed \<subseteq> set ordered" "[] \<notin> set batches"
    and dep: "\<And>j n d. j < length batches \<Longrightarrow> n \<in> set (batches ! j) \<Longrightarrow>
        d \<in> set (get_dependencies g n) \<Longrightarrow> \<exists>i < j. d \<in> set (batches ! i)"
    using inv unfolding batch_inv_def by blast+
  have bd: "distinct batch" using d b by (simp add: next_batch_def)
  have bs: "set batch \<subseteq> set ordered" "set batch \<inter> deployed = {}"
    using b by (auto simp: next_batch_def)
  show ?thesis unfolding batch_inv_def
  proof (intro conjI allI impI ballI)
    show "deployed \<union> set batch = set (concat (batches @ [batch]))" using i(1) by simp
    show "distinct (concat (batches @ [batch]))" using i(1,2) bd bs(2) by auto
    show "deployed \<union> set batch \<subseteq> set ordered" using i(3) bs(1) by simp
    show "[] \<notin> set (batches @ [batch])" using i(4) ne by simp
  next
    fix j n x
    assume j: "j < length (batches @ [batch])" and n: "n \<in> set ((batches @ [batch]) ! j)"
      and x: "x \<in> set (get_dependencies g n)"
    show "\<exists>i < j. x \<in> set ((batches @ [batch]) ! i)"
    proof (cases "j < length batches")
      case True
      then have "n \<in> set (batches ! j)" using n by (simp add: nth_append)
      from dep[OF True this x] obtain k where "k < j" "x \<in> set (batches ! k)" by blast
      then show ?thesis using True by (intro exI[of _ k]) (simp add: nth_append)
    next
      case False
      then have jl: "j = length batches" using j by simp
      then have "n \<in> set batch" using n by simp
      then have "list_all (\<lambda>dep. dep \<in> deployed) (get_dependencies g n)"
        using b by (simp add: next_batch_def)
      then have "x \<in> set (concat batches)" using x i(1) by (simp add: list_all_iff)
      then obtain c where "c \<in> set batches" "x \<in> set c" by auto
      then obtain k where "k < length batches" "batches ! k = c" by (auto simp: in_set_conv_nth)
      then show ?thesis using jl \<open>x \<in> set c\<close> by (intro exI[of _ k]) (simp add: nth_append)
    qed
  qed
qed

lemma batches_loop_result:
  "distinct ordered \<Longrightarrow> dependency_order g ordered \<Longrightarrow> batch_inv g ordered batches deployed \<Longrightarrow>
     \<exists>bs. batches_loop g ordered batches deployed = Inr bs
        \<and> batch_inv g ordered bs (set ordered)"
proof (induction g ordered batches deployed rule: batches_loop.induct)
  case (1 g ordered batches deployed)
  have sub: "deployed \<subseteq> set ordered" using "1.prems"(3) unfolding batch_inv_def by blast
  show ?case
  proof (cases "card deployed < length ordered")
    case True
    have "deployed \<noteq> set ordered" using True "1.prems"(1) by (auto simp: distinct_card)
    then obtain x where "x \<in> set ordered" "x \<notin> deployed" using sub by blast
    then have ne: "next_batch g ordered deployed \<noteq> []"
      using "1.prems"(2) by (intro next_batch_nonempty)
    have "batch_inv g ordered (batches @ [next_batch g ordered deployed])
        (deployed \<union> set (next_batch g ordered deployed))"
      using "1.prems"(1,3) refl ne by (rule batch_inv_step)
    from "1.IH"[OF True refl ne "1.prems"(1,2) this] obtain bs where
      "batches_loop g ordered (batches @ [next_batch g ordered deployed])
         (deployed \<union> set (next_batch g ordered deployed)) = Inr bs"
      "batch_inv g ordered bs (set ordered)"
      by blast
    then show ?thesis using True ne by (subst batches_loop.simps) (simp add: Let_def)
  next
    case False
    have "card (set ordered) \<le> card deployed"
      using False "1.prems"(1) by (simp add: distinct_card)
    then have "deployed = set ordered" using sub by (intro card_seteq) auto
    then show ?thesis using False "1.prems"(3) by (subst batches_loop.simps) simp
  qed
qed

lemma batch_inv_empty: "batch_inv g ordered [] {}"
  by (simp add: batch_inv_def)

lemma wf_graph_init: "wf_graph DependencyGraph_init"
  by (simp add: wf_graph_def DependencyGraph_init_def)

lemma wf_graph_clear: "wf_graph (clear g)"
  by (simp add: wf_graph_def clear_def)

lemma wf_graphI:
  assumes "distinct (nodes g)"
    and "dom (graph g) = set (nodes g)" and "dom (reverse_graph g) = set (nodes g)"
    and "\<And>n ds. graph g n = Some ds \<Longrightarrow> distinct ds \<and> set ds \<subseteq> set (nodes g)"
    and "\<And>n rs. reverse_graph g n = Some rs \<Longrightarrow> distinct rs \<and> set rs \<subseteq> set (nodes g)"
    and "\<And>n d. (\<exists>ds. graph g d = Some ds \<and> n \<in> set ds)
                 = (\<exists>rs. reverse_graph g n = Some rs \<and> d \<in> set rs)"
  shows "wf_graph g"
  unfolding wf_graph_def using assms by blast

lemma wf_graphD:
  assumes "wf_graph g"
  shows "distinct (nodes g)"
    and "dom (graph g) = set (nodes g)" and "dom (reverse_graph g) = set (nodes g)"
    and "\<And>n ds. graph g n = Some ds \<Longrightarrow> distinct ds \<and> set ds \<subseteq> set (nodes g)"
    and "\<And>n rs. reverse_graph g n = Some rs \<Longrightarrow> distinct rs \<and> set rs \<subseteq> set (nodes g)"
    and "\<And>n d. (\<exists>ds. graph g d = Some ds \<and> n \<in> set ds)
                 = (\<exists>rs. reverse_graph g n = Some rs \<and> d \<in> set rs)"
  using assms unfolding wf_graph_def by blast+

lemma wf_graph_add_node:
  assumes wf: "wf_graph g"
  shows "wf_graph (add_node x g)"
proof (cases "x \<in> set (nodes g)")
  case True
  then show ?thesis using wf by (simp add: add_node_def)
next
  case False
  note D = wf_graphD[OF wf]
  let ?g = "g\<lparr>nodes := nodes g @ [x], graph := (graph g)(x \<mapsto> []),
              reverse_graph := (reverse_graph g)(x \<mapsto> [])\<rparr>"
  have nox: "x \<notin> set ds" if "graph g n = Some ds" for n ds
    using D(4)[OF that] False by blast
  have nox': "x \<notin> set rs" if "reverse_graph g n = Some rs" for n rs
    using D(5)[OF that] False by blast
  have "wf_graph ?g"
  proof (rule wf_graphI)
    show "distinct (nodes ?g)" using D(1) False by simp
    show "dom (graph ?g) = set (nodes ?g)" using D(2) by simp
    show "dom (reverse_graph ?g) = set (nodes ?g)" using D(3) by simp
  next
    fix n ds assume "graph ?g n = Some ds"
    then show "distinct ds \<and> set ds \<subseteq> set (nodes ?g)"
      using D(4)[of n ds] by (cases "n = x") auto
  next
    fix n rs assume "reverse_graph ?g n = Some rs"
    then show "distinct rs \<and> set rs \<subseteq> set (nodes ?g)"
      using D(5)[of n rs] by (cases "n = x") auto
  next
    fix n d
    show "(\<exists>ds. graph ?g d = Some ds \<and> n \<in> set ds)
        = (\<exists>rs. reverse_graph ?g n = Some rs \<and> d \<in> set rs)"
    proof (cases "d = x \<or> n = x")
      case True
      then show ?thesis using nox nox' by auto
    next
      case False
      then show ?thesis using D(6)[where n = n and d = d] by simp
    qed
  qed
  then show ?thesis using False by (simp add: add_node_def)
qed

lemma nodes_add_node: "set (nodes (add_node x g)) = insert x (set (nodes g))"
  by (auto simp: add_node_def)

lemma edges_add_node:
  assumes "wf_graph g"
  shows "edges (add_node x g) = edges g"
proof (cases "x \<in> set (nodes g)")
  case True
  then show ?thesis by (simp add: add_node_def)
next
  case False
  then have "graph g x = None" using wf_graphD(2)[OF assms] by blast
  then show ?thesis using False by (auto simp: add_node_def edges_def split: if_splits)
qed

lemma wf_graph_add_dependency:
  assumes wf: "wf_graph g"
  shows "\<exists>g'. add_dependency n d g = Inr g' \<and> wf_graph g'
      \<and> set (nodes g') = insert n (insert d (set (nodes g)))
      \<and> edges g' = insert (d, n) (edges g)"
proof -
  let ?g2 = "add_node d (add_node n g)"
  have wf2: "wf_graph ?g2" using wf by (intro wf_graph_add_node)
  note D = wf_graphD[OF wf2]
  have ns: "set (nodes ?g2) = insert n (insert d (set (nodes g)))"
    by (auto simp: nodes_add_node)
  have es: "edges ?g2 = edges g"
    using wf by (simp add: edges_add_node wf_graph_add_node)
  obtain ds where ds: "graph ?g2 d = Some ds" using D(2) ns by blast
  obtain rs where rs: "reverse_graph ?g2 n = Some rs" using D(3) ns by blast
  have iff: "(n \<in> set ds) = (d \<in> set rs)" using D(6)[where n = n and d = d] ds rs by simp
  show ?thesis
  proof (cases "n \<in> set ds")
    case True
    then have "add_dependency n d g = Inr ?g2"
      using ds rs iff by (simp add: add_dependency_def Let_def)
    moreover have "(d, n) \<in> edges ?g2" using ds True by (auto simp: edges_def)
    ultimately show ?thesis using wf2 ns es by auto
  next
    case False
    let ?g' = "?g2\<lparr>graph := (graph ?g2)(d \<mapsto> ds @ [n]),
                   reverse_graph := (reverse_graph ?g2)(n \<mapsto> rs @ [d])\<rparr>"
    have res: "add_dependency n d g = Inr ?g'"
      using ds rs iff False by (simp add: add_dependency_def Let_def)
    have fwd: "(\<exists>ds'. graph ?g' e = Some ds' \<and> m \<in> set ds')
        = ((\<exists>ds'. graph ?g2 e = Some ds' \<and> m \<in> set ds') \<or> (e = d \<and> m = n))" for e m
      using ds by (cases "e = d") auto
    have bwd: "(\<exists>rs'. reverse_graph ?g' m = Some rs' \<and> e \<in> set rs')
        = ((\<exists>rs'. reverse_graph ?g2 m = Some rs' \<and> e \<in> set rs') \<or> (e = d \<and> m = n))" for e m
      using rs by (cases "m = n") auto
    have "wf_graph ?g'"
    proof (rule wf_graphI)
      show "distinct (nodes ?g')" using D(1) by simp
      show "dom (graph ?g') = set (nodes ?g')" using D(2) ns by auto
      show "dom (reverse_graph ?g') = set (nodes ?g')" using D(3) ns by auto
    next
      fix x xs assume "graph ?g' x = Some xs"
      then show "distinct xs \<and> set xs \<subseteq> set (nodes ?g')"
        using D(4)[of x xs] D(4)[OF ds] False ns by (cases "x = d") auto
    next
      fix x xs assume "reverse_graph ?g' x = Some xs"
      then show "distinct xs \<and> set xs \<subseteq> set (nodes ?g')"
        using D(5)[of x xs] D(5)[OF rs] False iff ns by (cases "x = n") auto
    next
      fix m e
      show "(\<exists>ds. graph ?g' e = Some ds \<and> m \<in> set ds)
          = (\<exists>rs. reverse_graph ?g' m = Some rs \<and> e \<in> set rs)"
        unfolding fwd bwd using D(6)[where n = m and d = e] by simp
    qed
    moreover have "edges ?g' = insert (d, n) (edges ?g2)"
      unfolding edges_def using fwd by auto
    moreover have "set (nodes ?g') = set (nodes ?g2)" by simp
    ultimately show ?thesis using res ns es by auto
  qed
qed

lemma wf_graph_apply_op:
  assumes "wf_graph g"
  shows "\<exists>g'. apply_op x g = Inr g' \<and> wf_graph g'"
proof (cases x)
  case (AddNode n)
  then show ?thesis using assms by (simp add: wf_graph_add_node)
next
  case (AddDependency n d)
  then show ?thesis using wf_graph_add_dependency[OF assms, of n d] by auto
next
  case Clear
  then show ?thesis by (simp add: wf_graph_clear)
qed

lemma wf_graph_apply_ops:
  "wf_graph g \<Longrightarrow> \<exists>g'. apply_ops xs g = Inr g' \<and> wf_graph g'"
proof (induction xs arbitrary: g)
  case Nil
  then show ?case by simp
next
  case (Cons x xs)
  from wf_graph_apply_op[OF Cons.prems, of x] obtain g1 where
    "apply_op x g = Inr g1" "wf_graph g1" by blast
  then show ?case using Cons.IH[of g1] by simp
qed

text \<open>
  Every sequence of calls of the mutators, from the empty graph, succeeds and leaves a
  well-formed graph.
\<close>

lemma wf_graph_build: "\<exists>g. build ops = Inr g \<and> wf_graph g"
  unfolding build_def using wf_graph_init by (rule wf_graph_apply_ops)

lemma wf_graph_of_ops: "wf_graph (graph_of_ops ops)"
  using wf_graph_build[of ops] by (auto simp: graph_of_ops_def)

text \<open>
  Claim C1. For every dependency graph without a cycle (well formed, as every graph built
  by the mutators is, whatever the iteration order of its node set),
  \<open>get_ordered_resources\<close> returns a list that holds every node of the graph exactly once,
  and for every edge from a dependency to a dependent the dependency stands at a smaller
  index than the dependent.
\<close>

theorem get_ordered_resources_topological:
  assumes "wf_graph g" and "acyclic (edges g)"
  shows "\<exists>ordered. get_ordered_resources g = Inr ordered
      \<and> distinct ordered \<and> set ordered = set (nodes g)
      \<and> (\<forall>d n. (d, n) \<in> edges g \<longrightarrow> precedes ordered d n)"
  using assms(1)
proof (cases rule: get_ordered_resources_cases)
  case (order ordered)
  have "precedes ordered d n" if "(d, n) \<in> edges g" for d n
    using dependency_order_precedes[OF assms(1) order(5) that]
      edges_nodes(2)[OF assms(1) that] order(4)
    by simp
  then have "\<forall>d n. (d, n) \<in> edges g \<longrightarrow> precedes ordered d n" by simp
  then show ?thesis using order(2,3,4) by (intro exI[of _ ordered]) simp
next
  case (cycle c)
  then show ?thesis using assms(2) by simp
qed

text \<open>
  Claim C2. For every dependency graph without a cycle, \<open>get_deployment_batches\<close> returns
  batches, none empty, that hold every node exactly once between them; every dependency
  of a node lies in a strictly earlier batch than the node, and so stands before it in the
  concatenation of the batches, which is a topological order.
\<close>

theorem get_deployment_batches_partition:
  assumes "wf_graph g" and "acyclic (edges g)"
  shows "\<exists>batches. get_deployment_batches g = Inr batches
      \<and> distinct (concat batches) \<and> set (concat batches) = set (nodes g)
      \<and> [] \<notin> set batches
      \<and> (\<forall>d n. (d, n) \<in> edges g \<longrightarrow>
            earlier_batch batches d n \<and> precedes (concat batches) d n)"
  using assms(1)
proof (cases rule: get_ordered_resources_cases)
  case (order ordered)
  from batches_loop_result[OF order(3,5) batch_inv_empty] obtain bs where
    bs: "batches_loop g ordered [] {} = Inr bs" "batch_inv g ordered bs (set ordered)"
    by blast
  have i: "set ordered = set (concat bs)" "distinct (concat bs)" "[] \<notin> set bs"
    using bs(2) by (simp_all add: batch_inv_def)
  have dep: "\<exists>i < j. d \<in> set (bs ! i)"
    if "j < length bs" "n \<in> set (bs ! j)" "d \<in> set (get_dependencies g n)" for j n d
    using bs(2) that unfolding batch_inv_def by blast
  have early: "earlier_batch bs d n" if "(d, n) \<in> edges g" for d n
  proof -
    have "n \<in> set (concat bs)" using edges_nodes(2)[OF assms(1) that] order(4) i(1) by simp
    then obtain c where "c \<in> set bs" "n \<in> set c" by auto
    then obtain j where j: "j < length bs" "n \<in> set (bs ! j)" by (auto simp: in_set_conv_nth)
    have "d \<in> set (get_dependencies g n)" using that edges_dependencies[OF assms(1)] by simp
    from dep[OF j this] obtain k where "k < j" "d \<in> set (bs ! k)" by blast
    then show ?thesis using j unfolding earlier_batch_def by blast
  qed
  have both: "\<forall>d n. (d, n) \<in> edges g \<longrightarrow> earlier_batch bs d n \<and> precedes (concat bs) d n"
  proof (intro allI impI conjI)
    fix d n assume e: "(d, n) \<in> edges g"
    show "earlier_batch bs d n" using e by (rule early)
    then show "precedes (concat bs) d n" by (rule earlier_batch_precedes)
  qed
  have r: "get_deployment_batches g = Inr bs"
    using order(2) bs(1) by (simp add: get_deployment_batches_def)
  have s: "set (concat bs) = set (nodes g)" using i(1) order(4) by simp
  show ?thesis using r i(2) s i(3) both by (intro exI[of _ bs] conjI)
next
  case (cycle c)
  then show ?thesis using assms(2) by simp
qed

text \<open>
  Claim C3. For every graph with a cycle, \<open>get_ordered_resources\<close> fails with
  \<open>CyclicDependencyError\<close>, and any two nodes of the reported path reach each other along
  the edges: they lie on one cycle. For every graph, \<open>has_cycle\<close> returns a boolean (it
  does not raise), which is true exactly when \<open>get_ordered_resources\<close> fails.
\<close>

theorem cycle_detection:
  assumes "wf_graph g"
  shows "(\<not> acyclic (edges g) \<longrightarrow>
          (\<exists>c. get_ordered_resources g = Inl (CyclicDependencyError c) \<and> c \<noteq> []
             \<and> (\<forall>x \<in> set c. \<forall>y \<in> set c. (x, y) \<in> (edges g)\<^sup>+)))
       \<and> (\<exists>b. has_cycle g = Inr b \<and> b = isl (get_ordered_resources g))"
  using assms
proof (cases rule: get_ordered_resources_cases)
  case (order ordered)
  have "has_cycle g = Inr False \<and> False = isl (get_ordered_resources g)"
    using order(2) by (simp add: has_cycle_def)
  then have "\<exists>b. has_cycle g = Inr b \<and> b = isl (get_ordered_resources g)" by (rule exI)
  then show ?thesis using order(1) by simp
next
  case (cycle c)
  have "has_cycle g = Inr True \<and> True = isl (get_ordered_resources g)"
    using cycle(2) by (simp add: has_cycle_def)
  then have "\<exists>b. has_cycle g = Inr b \<and> b = isl (get_ordered_resources g)" by (rule exI)
  moreover have "\<exists>c. get_ordered_resources g = Inl (CyclicDependencyError c) \<and> c \<noteq> []
             \<and> (\<forall>x \<in> set c. \<forall>y \<in> set c. (x, y) \<in> (edges g)\<^sup>+)"
    using cycle(2,3,4) by (intro exI[of _ c]) simp
  ultimately show ?thesis by simp
qed

text \<open>The graphs of the example, evaluated.\<close>

lemma chain_graph_order: "get_ordered_resources chain_graph = Inr [''A'', ''B'', ''C'']"
  unfolding chain_graph_def graph_of_ops_def by code_simp

lemma chain_graph_batches: "get_deployment_batches chain_graph = Inr [[''A''], [''B''], [''C'']]"
  unfolding chain_graph_def graph_of_ops_def by code_simp

lemma cyclic_graph_error:
  "get_ordered_resources cyclic_graph = Inl (CyclicDependencyError [''B'', ''A'', ''C'', ''B''])"
  unfolding cyclic_graph_def graph_of_ops_def by code_simp

lemma cyclic_graph_has_cycle: "has_cycle cyclic_graph = Inr True"
  unfolding cyclic_graph_def graph_of_ops_def by code_simp

lemma chain_graph_wf: "wf_graph chain_graph"
  unfolding chain_graph_def by (rule wf_graph_of_ops)

lemma cyclic_graph_wf: "wf_graph cyclic_graph"
  unfolding cyclic_graph_def by (rule wf_graph_of_ops)

lemma chain_graph_acyclic: "acyclic (edges chain_graph)"
  using chain_graph_wf
proof (cases rule: get_ordered_resources_cases)
  case (order ordered)
  then show ?thesis by simp
next
  case (cycle c)
  then show ?thesis using chain_graph_order by simp
qed

lemma cyclic_graph_not_acyclic: "\<not> acyclic (edges cyclic_graph)"
  using cyclic_graph_wf
proof (cases rule: get_ordered_resources_cases)
  case (order ordered)
  then show ?thesis using cyclic_graph_error by simp
next
  case (cycle c)
  then show ?thesis by simp
qed

lemma chain_graph_dependents: "get_dependents chain_graph ''A'' = [''B'']"
  unfolding chain_graph_def graph_of_ops_def by code_simp

lemma chain_graph_edge: "(''A'', ''B'') \<in> edges chain_graph"
  by (simp add: edges_dependents chain_graph_dependents)

theorem get_ordered_resources_topological_witness:
  "wf_graph chain_graph \<and> acyclic (edges chain_graph)
   \<and> get_ordered_resources chain_graph = Inr [''A'', ''B'', ''C'']
   \<and> (''A'', ''B'') \<in> edges chain_graph
   \<and> precedes [''A'', ''B'', ''C''] ''A'' ''B''"
proof -
  from get_ordered_resources_topological[OF chain_graph_wf chain_graph_acyclic]
  obtain ordered where o: "get_ordered_resources chain_graph = Inr ordered"
    "\<forall>d n. (d, n) \<in> edges chain_graph \<longrightarrow> precedes ordered d n"
    by blast
  have "ordered = [''A'', ''B'', ''C'']" using o(1) chain_graph_order by simp
  moreover have "precedes ordered ''A'' ''B''" using o(2) chain_graph_edge by blast
  ultimately have "precedes [''A'', ''B'', ''C''] ''A'' ''B''" by simp
  then show ?thesis
    using chain_graph_wf chain_graph_acyclic chain_graph_order chain_graph_edge by simp
qed

theorem get_deployment_batches_partition_witness:
  "wf_graph chain_graph \<and> acyclic (edges chain_graph)
   \<and> get_deployment_batches chain_graph = Inr [[''A''], [''B''], [''C'']]
   \<and> (''A'', ''B'') \<in> edges chain_graph
   \<and> earlier_batch [[''A''], [''B''], [''C'']] ''A'' ''B''"
proof -
  from get_deployment_batches_partition[OF chain_graph_wf chain_graph_acyclic]
  obtain bs where b: "get_deployment_batches chain_graph = Inr bs"
    "\<forall>d n. (d, n) \<in> edges chain_graph \<longrightarrow> earlier_batch bs d n \<and> precedes (concat bs) d n"
    by blast
  have "bs = [[''A''], [''B''], [''C'']]" using b(1) chain_graph_batches by simp
  moreover have "earlier_batch bs ''A'' ''B''" using b(2) chain_graph_edge by blast
  ultimately have "earlier_batch [[''A''], [''B''], [''C'']] ''A'' ''B''" by simp
  then show ?thesis
    using chain_graph_wf chain_graph_acyclic chain_graph_batches chain_graph_edge by simp
qed

theorem cycle_detection_witness:
  "wf_graph cyclic_graph \<and> \<not> acyclic (edges cyclic_graph)
   \<and> get_ordered_resources cyclic_graph = Inl (CyclicDependencyError [''B'', ''A'', ''C'', ''B''])
   \<and> (''A'', ''C'') \<in> (edges cyclic_graph)\<^sup>+ \<and> (''C'', ''A'') \<in> (edges cyclic_graph)\<^sup>+
   \<and> has_cycle cyclic_graph = Inr True"
proof -
  from cycle_detection[OF cyclic_graph_wf] cyclic_graph_not_acyclic
  obtain c where c: "get_ordered_resources cyclic_graph = Inl (CyclicDependencyError c)"
    "\<forall>x \<in> set c. \<forall>y \<in> set c. (x, y) \<in> (edges cyclic_graph)\<^sup>+"
    by blast
  have "c = [''B'', ''A'', ''C'', ''B'']" using c(1) cyclic_graph_error by simp
  then have m: "''A'' \<in> set c" "''C'' \<in> set c" by simp_all
  have 1: "(''A'', ''C'') \<in> (edges cyclic_graph)\<^sup>+" using c(2) m by blast
  have 2: "(''C'', ''A'') \<in> (edges cyclic_graph)\<^sup>+" using c(2) m by blast
  show ?thesis
    using cyclic_graph_wf cyclic_graph_not_acyclic cyclic_graph_error cyclic_graph_has_cycle 1 2
    by simp
qed

section \<open>Properties of the fix orchestrator\<close>

text \<open>
  Once the flag is set, or as many attempts are recorded as \<open>max_fix_attempts\<close> allows,
  a call of \<open>attempt_fix\<close> returns \<open>False\<close> and sets the flag; it appends no record and
  leaves the world alone, whatever its inputs are.
\<close>

lemma attempt_fix_exhausted:
  assumes "circuit_breaker_open orch \<or> max_fix_attempts orch \<le> int (length (fix_attempts orch))"
  shows "attempt_fix sp orch rs errs w
      = (False, orch\<lparr>circuit_breaker_open := True\<rparr>, w)"
  using assms by (auto simp: attempt_fix_def)





lemma classify_result_passed:
  "status r \<in> {SUCCESS, SKIPPED} \<Longrightarrow> classify_result r cl = cl"
  by (auto simp: classify_result_def)

lemma classify_errors_empty:
  assumes "\<forall>r\<in>set rs. status r \<in> {SUCCESS, SKIPPED}" "errs = None \<or> errs = Some []"
  shows "classify_errors rs errs = []"
proof -
  have "foldl (\<lambda>cl result. classify_result result cl) cl rs = cl" for cl
    using assms(1) by (induction rs arbitrary: cl) (simp_all add: classify_result_passed)
  then show ?thesis using assms(2) by (auto simp: classify_errors_def)
qed

text \<open>
  From then on every call of a sequence is refused in this way: the calls return
  \<open>False\<close>, the records and the world stay as they were.
\<close>

lemma attempt_fixes_exhausted:
  assumes "circuit_breaker_open orch \<or> max_fix_attempts orch \<le> int (length (fix_attempts orch))"
    and "inputs \<noteq> []"
  shows "attempt_fixes sp orch inputs w
      = (replicate (length inputs) False, orch\<lparr>circuit_breaker_open := True\<rparr>, w)"
  using assms
proof (induction inputs arbitrary: orch)
  case Nil
  then show ?case by simp
next
  case (Cons a inputs)
  obtain rs errs where a: "a = (rs, errs)" by (cases a)
  let ?o = "orch\<lparr>circuit_breaker_open := True\<rparr>"
  have 1: "attempt_fix sp orch rs errs w = (False, ?o, w)"
    using Cons.prems(1) by (rule attempt_fix_exhausted)
  show ?case
  proof (cases "inputs = []")
    case True
    then show ?thesis using 1 a by simp
  next
    case False
    have "attempt_fixes sp ?o inputs w
        = (replicate (length inputs) False, ?o\<lparr>circuit_breaker_open := True\<rparr>, w)"
      using False by (intro Cons.IH) simp_all
    then show ?thesis using 1 a by simp
  qed
qed

text \<open>
  Claim C9, at the input of the repository's test \<open>test_circuit_breaker_opens\<close>: an
  orchestrator with \<open>max_fix_attempts = 2\<close> and calls of \<open>attempt_fix\<close> on one failed
  test. After the second call two attempts are recorded, as many as \<open>max_fix_attempts\<close>,
  and the breaker is still not open; the third call, which is refused, is the one that
  opens it.
\<close>

theorem attempt_fix_breaker_opens_late:
  "length (fix_attempts (fst (snd (attempt_fixes counting_subprocess
       (FixOrchestrator_init ''.'' 2 True)
       [([result_example FAILURE], Some []), ([result_example FAILURE], Some [])] 0)))) = 2
   \<and> circuit_breaker_open (fst (snd (attempt_fixes counting_subprocess
       (FixOrchestrator_init ''.'' 2 True)
       [([result_example FAILURE], Some []), ([result_example FAILURE], Some [])] 0))) = False
   \<and> circuit_breaker_open (fst (snd (attempt_fixes counting_subprocess
       (FixOrchestrator_init ''.'' 2 True)
       [([result_example FAILURE], Some []), ([result_example FAILURE], Some []),
        ([result_example FAILURE], Some [])] 0))) = True"
  by (simp add: attempt_fix_def FixOrchestrator_init_def result_example_def
      classify_errors_def classify_result_def setdefault_append_def dispatch_fixes_def
      run_strategy_def make_fix_attempt_def Let_def)

text \<open>
  Claim C10, as stated, fails where the flag is not set and the recorded attempts have
  reached \<open>max_fix_attempts\<close>: after one dispatching call of an orchestrator with
  \<open>max_fix_attempts = 1\<close>, the flag is not set, and a call with no test result and no
  deployment error returns \<open>False\<close> and sets the flag.
\<close>

theorem attempt_fix_no_errors_counterexample:
  "circuit_breaker_open (fst (snd (attempt_fixes counting_subprocess
       (FixOrchestrator_init ''.'' 1 True) [([result_example FAILURE], None)] 0))) = False
   \<and> classify_errors [] None = []
   \<and> fst (attempt_fixes counting_subprocess (FixOrchestrator_init ''.'' 1 True)
       [([result_example FAILURE], None), ([], None)] 0) = [False, False]
   \<and> circuit_breaker_open (fst (snd (attempt_fixes counting_subprocess
       (FixOrchestrator_init ''.'' 1 True)
       [([result_example FAILURE], None), ([], None)] 0))) = True"
  by (simp add: attempt_fix_def FixOrchestrator_init_def result_example_def
      classify_errors_def classify_result_def setdefault_append_def dispatch_fixes_def
      run_strategy_def make_fix_attempt_def Let_def)

text \<open>
  Claim C10, amended: when \<open>attempt_fix\<close> is called with the flag not set and fewer
  recorded attempts than \<open>max_fix_attempts\<close>, on test results that all have the status
  Success or Skipped and with the list of deployment errors empty or absent, it returns
  \<open>True\<close> and changes neither the orchestrator (no record appended, flag as before) nor
  the world.
\<close>

theorem attempt_fix_no_errors:
  assumes "\<not> circuit_breaker_open orch"
    and "int (length (fix_attempts orch)) < max_fix_attempts orch"
    and "\<forall>r\<in>set rs. status r \<noteq> TIMEOUT \<and> status r \<noteq> AUTH_ERROR
           \<and> status r \<noteq> SERVER_ERROR \<and> status r \<noteq> FAILURE"
    and "errs = None \<or> errs = Some []"
  shows "attempt_fix sp orch rs errs w = (True, orch, w)"
proof -
  have "\<forall>r\<in>set rs. status r \<in> {SUCCESS, SKIPPED}"
  proof
    fix r assume "r \<in> set rs"
    then show "status r \<in> {SUCCESS, SKIPPED}" using assms(3) by (cases "status r") auto
  qed
  then have "classify_errors rs errs = []"
    using assms(4) by (rule classify_errors_empty)
  then show ?thesis using assms(1,2) by (simp add: attempt_fix_def)
qed

theorem attempt_fix_no_errors_witness:
  "attempt_fix counting_subprocess (FixOrchestrator_init ''.'' 3 True)
     [result_example SUCCESS, result_example SKIPPED] None 0
   = (True, FixOrchestrator_init ''.'' 3 True, 0)"
  using attempt_fix_no_errors [of "FixOrchestrator_init ''.'' 3 True"
      "[result_example SUCCESS, result_example SKIPPED]" None counting_subprocess 0]
  by (simp add: FixOrchestrator_init_def result_example_def)

section \<open>Properties of the validation session\<close>

















end
